theory Spec2Isabelle
  imports Main "HOL-Library.Multiset"
begin

section \<open>Mastermind: the core logic of project.py\<close>

subsection \<open>Exceptions and constants\<close>

text \<open>
  The exceptions the modelled code can raise. A function that may raise returns
  \<open>py_error + 'a\<close>, with \<open>Inl\<close> for the exception.
\<close>

datatype py_error = ValueError | IndexError | KeyError

definition COLORS :: "string list" where
  "COLORS = [''#38ffff'', ''#ff6a00'', ''#ccf300'', ''#ff5e9c'', ''#5a7af5'', ''#b277ff'']"

definition DISPLAY_NAMES :: "string \<rightharpoonup> string" where
  "DISPLAY_NAMES =
     [''#38ffff'' \<mapsto> ''Cyan'', ''#ff6a00'' \<mapsto> ''Orange'', ''#ccf300'' \<mapsto> ''Lime'',
      ''#ff5e9c'' \<mapsto> ''Pink'', ''#5a7af5'' \<mapsto> ''Blue'', ''#b277ff'' \<mapsto> ''Violet'']"

definition CODE_LENGTH :: int where
  "CODE_LENGTH = 4"

definition MAX_TRIES :: int where
  "MAX_TRIES = 10"

subsection \<open>generate_code\<close>

text \<open>
  The state of the \<open>random\<close> module is a sequence of raw draws: \<open>g i\<close> is the
  \<open>i\<close>-th number the generator will produce. \<open>random.choice(seq)\<close> raises IndexError
  on an empty sequence and otherwise returns \<open>seq[k]\<close> for a generated index
  \<open>k < len(seq)\<close>.
\<close>

type_synonym rng = "nat \<Rightarrow> nat"

definition advance :: "nat \<Rightarrow> rng \<Rightarrow> rng" where
  "advance n g = (\<lambda>i. g (i + n))"

definition choice :: "nat \<Rightarrow> 'a list \<Rightarrow> py_error + 'a" where
  "choice r seq = (if seq = [] then Inl IndexError else Inr (seq ! (r mod length seq)))"

text \<open>The comprehension \<open>[random.choice(colors) for _ in range(length)]\<close>, run \<open>n\<close> times.\<close>

fun choices :: "rng \<Rightarrow> 'a list \<Rightarrow> nat \<Rightarrow> py_error + 'a list" where
  "choices g colors 0 = Inr []"
| "choices g colors (Suc n) =
     (case choice (g 0) colors of
        Inl e \<Rightarrow> Inl e
      | Inr c \<Rightarrow>
          (case choices (advance 1 g) colors n of
             Inl e \<Rightarrow> Inl e
           | Inr cs \<Rightarrow> Inr (c # cs)))"

text \<open>\<open>range(length)\<close> is empty for \<open>length \<le> 0\<close>: it has \<open>nat length\<close> elements.\<close>

definition generate_code :: "rng \<Rightarrow> 'a list \<Rightarrow> int \<Rightarrow> py_error + 'a list" where
  "generate_code g colors len = choices g colors (nat len)"

subsection \<open>check_guess\<close>

text \<open>
  \<open>sum(s == g for s, g in zip(secret, guess))\<close> adds the booleans as 0 and 1;
  \<open>set(guess)\<close> holds the distinct values of the guess and the sum over it does not
  depend on the order of iteration.
\<close>

definition check_guess :: "'a list \<Rightarrow> 'a list \<Rightarrow> py_error + (int \<times> int)" where
  "check_guess secret guess =
     (if length secret \<noteq> length guess then Inl ValueError
      else
        let black = sum_list (map (\<lambda>(s, g). if s = g then 1 else 0) (zip secret guess));
            total_matches =
              (\<Sum>c\<in>set guess. min (int (count_list secret c)) (int (count_list guess c)));
            white = total_matches - black
        in Inr (black, white))"

subsection \<open>format_feedback\<close>

text \<open>Python's \<open>xs * n\<close> on a list: \<open>n\<close> copies of \<open>xs\<close>, none for \<open>n \<le> 0\<close>.\<close>

definition list_mul :: "'a list \<Rightarrow> int \<Rightarrow> 'a list" where
  "list_mul xs n = concat (replicate (nat n) xs)"

definition format_feedback :: "int \<Rightarrow> int \<Rightarrow> int \<Rightarrow> py_error + string list" where
  "format_feedback black white len =
     (if black < 0 \<or> white < 0 \<or> black + white > len then Inl ValueError
      else Inr (list_mul [''black''] black @ list_mul [''white''] white
                @ list_mul [''empty''] (len - black - white)))"

subsection \<open>The window's game state\<close>

text \<open>
  One entry of \<open>self.rows\<close>. The two canvases are modelled by the fill colour of
  their ovals, listed in the order of \<open>peg_items\<close> and \<open>fb_items\<close>.
\<close>

record row_state =
  peg_fill :: "string list"
  guess_state :: "string option list"
  fb_fill :: "string list"
  solved :: bool

text \<open>
  The fields of \<open>MastermindGUI\<close> the handlers read and write, the text of the status
  label as the two numbers it shows, and the state of the random generator.
\<close>

record gui =
  secret :: "string list"
  current_try :: int
  rows :: "row_state list"
  game_over :: bool
  status_label :: "int \<times> int"
  rand :: rng

text \<open>\<open>xs[i]\<close> on a list: a negative index counts from the end, out of range raises.\<close>

definition py_index :: "'a list \<Rightarrow> int \<Rightarrow> py_error + nat" where
  "py_index xs i =
     (if 0 \<le> i \<and> i < int (length xs) then Inr (nat i)
      else if i < 0 \<and> - int (length xs) \<le> i then Inr (nat (int (length xs) + i))
      else Inl IndexError)"

text \<open>\<open>xs.index(x)\<close>: the first position of \<open>x\<close>; \<open>None\<close> stands for the ValueError.\<close>

fun index_of :: "'a list \<Rightarrow> 'a \<Rightarrow> nat option" where
  "index_of [] x = None"
| "index_of (y # ys) x = (if y = x then Some 0 else map_option Suc (index_of ys x))"

definition new_row :: row_state where
  "new_row =
     \<lparr>peg_fill = replicate (nat CODE_LENGTH) ''lightgray'',
      guess_state = list_mul [None] CODE_LENGTH,
      fb_fill = replicate 4 ''lightgray'',
      solved = False\<rparr>"

text \<open>\<open>__init__\<close> with \<open>_create_rows\<close>: a fresh secret and MAX_TRIES empty rows.\<close>

definition init_gui :: "rng \<Rightarrow> py_error + gui" where
  "init_gui g =
     (case generate_code g COLORS CODE_LENGTH of
        Inl e \<Rightarrow> Inl e
      | Inr code \<Rightarrow>
          Inr \<lparr>secret = code, current_try = 0,
               rows = replicate (nat MAX_TRIES) new_row,
               game_over = False,
               status_label = (1, MAX_TRIES),
               rand = advance (nat CODE_LENGTH) g\<rparr>)"

subsection \<open>_draw_feedback\<close>

definition feedback_fill :: "string \<Rightarrow> string" where
  "feedback_fill v =
     (if v = ''black'' then ''#39ff14''
      else if v = ''white'' then ''#f8ff00''
      else ''#ff5555'')"

text \<open>The loop over \<open>enumerate(feedback)\<close>; \<open>fb_items[i]\<close> raises when \<open>i\<close> is out of range.\<close>

fun draw_feedback_from :: "nat \<Rightarrow> string list \<Rightarrow> string list \<Rightarrow> py_error + string list" where
  "draw_feedback_from i fills [] = Inr fills"
| "draw_feedback_from i fills (v # vs) =
     (if i < length fills then draw_feedback_from (Suc i) (fills[i := feedback_fill v]) vs
      else Inl IndexError)"

definition draw_feedback :: "string list \<Rightarrow> string list \<Rightarrow> py_error + string list" where
  "draw_feedback fills feedback = draw_feedback_from 0 fills feedback"

subsection \<open>_reset_game and the two dialogs\<close>

definition reset_row :: "row_state \<Rightarrow> row_state" where
  "reset_row row =
     row\<lparr>peg_fill := map (\<lambda>_. ''lightgray'') (peg_fill row),
         guess_state := list_mul [None] CODE_LENGTH,
         fb_fill := map (\<lambda>_. ''lightgray'') (fb_fill row),
         solved := False\<rparr>"

definition reset_game :: "gui \<Rightarrow> py_error + gui" where
  "reset_game s =
     (case generate_code (rand s) COLORS CODE_LENGTH of
        Inl e \<Rightarrow> Inl e
      | Inr code \<Rightarrow>
          Inr (s\<lparr>secret := code,
                 rand := advance (nat CODE_LENGTH) (rand s),
                 current_try := 0,
                 game_over := False,
                 rows := map reset_row (rows s),
                 status_label := (0 + 1, MAX_TRIES)\<rparr>))"

text \<open>\<open>DISPLAY_NAMES[c] for c in self.secret\<close>: a colour without a name raises KeyError.\<close>

fun display_names :: "string list \<Rightarrow> py_error + string list" where
  "display_names [] = Inr []"
| "display_names (c # cs) =
     (case DISPLAY_NAMES c of
        None \<Rightarrow> Inl KeyError
      | Some n \<Rightarrow>
          (case display_names cs of
             Inl e \<Rightarrow> Inl e
           | Inr ns \<Rightarrow> Inr (n # ns)))"

text \<open>
  Both dialogs build the text with the secret's display names and ask "Play again?";
  \<open>answer\<close> is what \<open>messagebox.askyesno\<close> returns.
\<close>

definition reveal_win :: "bool \<Rightarrow> gui \<Rightarrow> py_error + gui" where
  "reveal_win answer s =
     (case display_names (secret s) of
        Inl e \<Rightarrow> Inl e
      | Inr names \<Rightarrow> if answer then reset_game s else Inr s)"

definition reveal_loss :: "bool \<Rightarrow> gui \<Rightarrow> py_error + gui" where
  "reveal_loss answer s =
     (case display_names (secret s) of
        Inl e \<Rightarrow> Inl e
      | Inr names \<Rightarrow> if answer then reset_game s else Inr s)"

subsection \<open>_palette_click\<close>

text \<open>Which dialog the handler opens before it returns.\<close>

datatype dialog = NoDialog | WinDialog | LossDialog

text \<open>Lines 270 to 273: store the colour in the slot and paint its oval.\<close>

definition fill_peg :: "string \<Rightarrow> nat \<Rightarrow> row_state \<Rightarrow> py_error + row_state" where
  "fill_peg color pos row =
     (if pos < length (peg_fill row)
      then Inr (row\<lparr>guess_state := (guess_state row)[pos := Some color],
                    peg_fill := (peg_fill row)[pos := color]\<rparr>)
      else Inl IndexError)"

text \<open>
  Lines 278 to 280: score the full row against the secret and paint the feedback pegs.
  The row holds no \<open>None\<close> here, so the secret's colours are compared with it as
  \<open>Some\<close> values.
\<close>

definition score_row :: "string list \<Rightarrow> row_state \<Rightarrow> py_error + (int \<times> row_state)" where
  "score_row sec row =
     (case check_guess (map Some sec) (guess_state row) of
        Inl e \<Rightarrow> Inl e
      | Inr (black, white) \<Rightarrow>
          (case format_feedback black white CODE_LENGTH of
             Inl e \<Rightarrow> Inl e
           | Inr fb \<Rightarrow>
               (case draw_feedback (fb_fill row) fb of
                  Inl e \<Rightarrow> Inl e
                | Inr fills \<Rightarrow> Inr (black, row\<lparr>fb_fill := fills\<rparr>))))"

text \<open>Lines 282 to 295: the win branch, else the next row or the loss branch.\<close>

definition finish_row :: "nat \<Rightarrow> int \<Rightarrow> row_state \<Rightarrow> gui \<Rightarrow> gui \<times> dialog" where
  "finish_row k black row s =
     (if black = CODE_LENGTH
      then (s\<lparr>rows := (rows s)[k := row\<lparr>solved := True\<rparr>], game_over := True\<rparr>, WinDialog)
      else
        let s1 = s\<lparr>rows := (rows s)[k := row], current_try := current_try s + 1\<rparr>
        in if current_try s1 \<ge> MAX_TRIES
           then (s1\<lparr>game_over := True\<rparr>, LossDialog)
           else (s1\<lparr>status_label := (current_try s1 + 1, MAX_TRIES)\<rparr>, NoDialog))"

text \<open>
  The handler up to the point where it opens a dialog or returns: the state it has
  reached there and the dialog it opens. An exception leaves the handler at once and
  is all the model reports of that run.
\<close>

definition palette_click_steps :: "string \<Rightarrow> gui \<Rightarrow> py_error + (gui \<times> dialog)" where
  "palette_click_steps color s =
     (if game_over s then Inr (s, NoDialog)
      else
        case py_index (rows s) (current_try s) of
          Inl e \<Rightarrow> Inl e
        | Inr k \<Rightarrow>
            (case index_of (guess_state (rows s ! k)) None of
               None \<Rightarrow> Inr (s, NoDialog)
             | Some pos \<Rightarrow>
                 (case fill_peg color pos (rows s ! k) of
                    Inl e \<Rightarrow> Inl e
                  | Inr row \<Rightarrow>
                      if None \<notin> set (guess_state row)
                      then
                        (case score_row (secret s) row of
                           Inl e \<Rightarrow> Inl e
                         | Inr (black, row') \<Rightarrow> Inr (finish_row k black row' s))
                      else Inr (s\<lparr>rows := (rows s)[k := row]\<rparr>, NoDialog))))"

definition palette_click :: "bool \<Rightarrow> string \<Rightarrow> gui \<Rightarrow> py_error + gui" where
  "palette_click answer color s =
     (case palette_click_steps color s of
        Inl e \<Rightarrow> Inl e
      | Inr (s', WinDialog) \<Rightarrow> reveal_win answer s'
      | Inr (s', LossDialog) \<Rightarrow> reveal_loss answer s'
      | Inr (s', NoDialog) \<Rightarrow> Inr s')"

subsection \<open>Observing a session\<close>

text \<open>
  The session states of the specification, read off the window's fields: the game is in
  progress until \<open>game_over\<close> is set; it is won when a row carries the \<open>solved\<close>
  mark, which only the win branch sets, and lost otherwise.
\<close>

datatype outcome = InProgress | Won | Lost

definition session_state :: "gui \<Rightarrow> outcome" where
  "session_state s =
     (if \<not> game_over s then InProgress
      else if list_ex solved (rows s) then Won
      else Lost)"

definition row_complete :: "row_state \<Rightarrow> bool" where
  "row_complete row = (None \<notin> set (guess_state row))"

text \<open>
  The guess a click submits: the slots of the current row with the clicked colour in
  the first empty one.
\<close>

definition submitted_guess :: "string \<Rightarrow> gui \<Rightarrow> string option list" where
  "submitted_guess color s =
     (let g = guess_state (rows s ! nat (current_try s))
      in case index_of g None of None \<Rightarrow> g | Some pos \<Rightarrow> g[pos := Some color])"

text \<open>The shape \<open>_create_rows\<close> gives every row: CODE_LENGTH pegs, four feedback pegs.\<close>

definition row_shape :: "row_state \<Rightarrow> bool" where
  "row_shape row =
     (length (guess_state row) = nat CODE_LENGTH \<and>
      length (peg_fill row) = nat CODE_LENGTH \<and>
      length (fb_fill row) = 4)"

text \<open>
  What holds of the window between two events: the secret has CODE_LENGTH colours of
  the palette, there are MAX_TRIES rows, the rows below the current one hold complete
  guesses that did not win, the rows above it are untouched, and the current row is
  complete exactly when it won and ended the game. When all rows are used the game is
  over.
\<close>

definition session_inv :: "gui \<Rightarrow> bool" where
  "session_inv s =
     (length (secret s) = nat CODE_LENGTH \<and>
      set (secret s) \<subseteq> set COLORS \<and>
      length (rows s) = nat MAX_TRIES \<and>
      list_all row_shape (rows s) \<and>
      0 \<le> current_try s \<and> current_try s \<le> MAX_TRIES \<and>
      list_all (\<lambda>r. row_complete r \<and> \<not> solved r) (take (nat (current_try s)) (rows s)) \<and>
      list_all (\<lambda>r. \<not> row_complete r \<and> \<not> solved r) (drop (Suc (nat (current_try s))) (rows s)) \<and>
      (if current_try s < MAX_TRIES
       then solved (rows s ! nat (current_try s)) = game_over s \<and>
            row_complete (rows s ! nat (current_try s)) = game_over s
       else game_over s))"

subsection \<open>Sessions to run the handlers on\<close>

text \<open>A row holding a complete guess, and the current row with its last slot empty.\<close>

definition played_row :: "string list \<Rightarrow> row_state" where
  "played_row g =
     \<lparr>peg_fill = g, guess_state = map Some g,
      fb_fill = replicate 4 ''#ff5555'', solved = False\<rparr>"

definition open_row :: "string list \<Rightarrow> row_state" where
  "open_row g =
     \<lparr>peg_fill = g @ [''lightgray''], guess_state = map Some g @ [None],
      fb_fill = replicate 4 ''lightgray'', solved = False\<rparr>"

text \<open>
  A game with secret Cyan, Orange, Lime, Pink in which \<open>k\<close> rows were played with four
  Violet pegs and the current row holds Cyan, Orange, Lime.
\<close>

definition session_at :: "nat \<Rightarrow> gui" where
  "session_at k =
     \<lparr>secret = [''#38ffff'', ''#ff6a00'', ''#ccf300'', ''#ff5e9c''],
      current_try = int k,
      rows = replicate k (played_row (replicate 4 ''#b277ff''))
             @ [open_row [''#38ffff'', ''#ff6a00'', ''#ccf300'']]
             @ replicate (9 - k) new_row,
      game_over = False,
      status_label = (int k + 1, MAX_TRIES),
      rand = id\<rparr>"

text \<open>The same game after ten rows of four Violet pegs: lost and left open.\<close>

definition session_over :: gui where
  "session_over =
     \<lparr>secret = [''#38ffff'', ''#ff6a00'', ''#ccf300'', ''#ff5e9c''],
      current_try = 10,
      rows = replicate 10 (played_row (replicate 4 ''#b277ff'')),
      game_over = True,
      status_label = (10, MAX_TRIES),
      rand = id\<rparr>"

text \<open>The session \<open>__init__\<close> builds when the generator draws 0, 1, 2, 3 and so on.\<close>

definition first_session :: gui where
  "first_session =
     \<lparr>secret = [''#38ffff'', ''#ff6a00'', ''#ccf300'', ''#ff5e9c''],
      current_try = 0,
      rows = replicate (nat MAX_TRIES) new_row,
      game_over = False,
      status_label = (1, MAX_TRIES),
      rand = advance (nat CODE_LENGTH) id\<rparr>"

subsection \<open>A session as a sequence of clicks\<close>

text \<open>
  The clicks of one game, handled one after the other. The player answers no to
  "Play again?", so the finished game stays on the screen.
\<close>

fun clicks :: "string list \<Rightarrow> gui \<Rightarrow> py_error + gui" where
  "clicks [] s = Inr s"
| "clicks (c # cs) s =
     (case palette_click False c s of
        Inl e \<Rightarrow> Inl e
      | Inr s' \<Rightarrow> clicks cs s')"

text \<open>
  The \<open>j\<close>-th guess a sequence of clicks submits: every CODE_LENGTH clicks fill one
  row. It is complete when the sequence has at least \<open>CODE_LENGTH * (j + 1)\<close> clicks.
\<close>

definition guess_no :: "nat \<Rightarrow> string list \<Rightarrow> string list" where
  "guess_no j cs = take (nat CODE_LENGTH) (drop (nat CODE_LENGTH * j) cs)"

text \<open>A guess wins when \<open>check_guess\<close> scores it with CODE_LENGTH black pegs.\<close>

definition wins :: "string list \<Rightarrow> string list \<Rightarrow> bool" where
  "wins sec g =
     (case check_guess sec g of
        Inl e \<Rightarrow> False
      | Inr (black, white) \<Rightarrow> black = CODE_LENGTH)"

text \<open>
  A session in progress on row \<open>t\<close> whose current row holds the colours \<open>p\<close>, in the
  order they were clicked, and whose later rows are empty.
\<close>

definition at_position :: "gui \<Rightarrow> nat \<Rightarrow> string list \<Rightarrow> bool" where
  "at_position s t p =
     (session_inv s \<and> \<not> game_over s \<and> current_try s = int t \<and>
      length p < nat CODE_LENGTH \<and>
      guess_state (rows s ! t) = map Some p @ replicate (nat CODE_LENGTH - length p) None \<and>
      list_all (\<lambda>r. guess_state r = replicate (nat CODE_LENGTH) None)
        (drop (Suc t) (rows s)))"

section \<open>Properties of the pure functions\<close>

subsection \<open>Auxiliary facts\<close>

lemma choices_eq:
  "choices g colors n =
     (if colors = [] \<and> 0 < n then Inl IndexError
      else Inr (map (\<lambda>i. colors ! (g i mod length colors)) [0..<n]))"
proof (induction n arbitrary: g)
  case 0
  show ?case by simp
next
  case (Suc n)
  have shift: "map (\<lambda>i. colors ! (g i mod length colors)) [0..<Suc n] =
      colors ! (g 0 mod length colors) # map (\<lambda>i. colors ! (advance 1 g i mod length colors)) [0..<n]"
    by (simp only: upt_conv_Cons[of 0 "Suc n"] map_Suc_upt[symmetric]) (simp add: advance_def comp_def)
  show ?case
    unfolding shift by (cases "colors = []") (simp_all add: Suc.IH choice_def)
qed

lemma black_filter:
  "sum_list (map (\<lambda>(s, g). if s = g then (1::int) else 0) zs) =
     int (length (filter (\<lambda>(s, g). s = g) zs))"
  by (induction zs) auto

lemma black_card:
  assumes "length xs = length ys"
  shows "length (filter (\<lambda>(s, g). s = g) (zip xs ys)) = card {i. i < length ys \<and> xs ! i = ys ! i}"
proof -
  have "{i. i < length (zip xs ys) \<and> (\<lambda>(s, g). s = g) (zip xs ys ! i)} =
        {i. i < length ys \<and> xs ! i = ys ! i}"
    using assms by auto
  then show ?thesis by (simp add: length_filter_conv_card)
qed

lemma total_mset:
  "(\<Sum>c\<in>set ys. min (int (count_list xs c)) (int (count_list ys c))) =
     int (size (mset xs \<inter># mset ys))"
proof -
  have "size (mset xs \<inter># mset ys) = (\<Sum>c\<in>set xs \<inter> set ys. min (count_list xs c) (count_list ys c))"
    by (simp add: size_multiset_overloaded_eq count_mset)
  also have "\<dots> = (\<Sum>c\<in>set ys. min (count_list xs c) (count_list ys c))"
  proof (rule sum.mono_neutral_left)
    show "\<forall>c\<in>set ys - set xs \<inter> set ys. min (count_list xs c) (count_list ys c) = 0"
    proof
      fix c assume "c \<in> set ys - set xs \<inter> set ys"
      then have "c \<notin> set xs" by blast
      then show "min (count_list xs c) (count_list ys c) = 0" by simp
    qed
  qed auto
  finally show ?thesis by (simp add: of_nat_sum of_nat_min)
qed

lemma mset_take_sub: "mset (take n xs) \<subseteq># mset xs"
proof -
  have "mset xs = mset (take n xs) + mset (drop n xs)"
    by (simp only: mset_append[symmetric] append_take_drop_id)
  then show ?thesis by simp
qed

lemma matched_sub:
  "mset (map fst (filter (\<lambda>(s, g). s = g) (zip xs ys))) \<subseteq># mset xs \<inter># mset ys"
proof -
  let ?m = "filter (\<lambda>(s, g). s = g) (zip xs ys)"
  have "mset (map fst ?m) \<subseteq># mset (map fst (zip xs ys))"
    by (simp add: image_mset_subseteq_mono)
  also have "\<dots> \<subseteq># mset xs"
    by (simp add: map_fst_zip_take mset_take_sub)
  finally have a: "mset (map fst ?m) \<subseteq># mset xs" .
  have eq: "map fst ?m = map snd ?m"
    by (induction "zip xs ys" arbitrary: xs ys) auto
  have "mset (map snd ?m) \<subseteq># mset (map snd (zip xs ys))"
    by (simp add: image_mset_subseteq_mono)
  also have "\<dots> \<subseteq># mset ys"
    by (simp add: map_snd_zip_take mset_take_sub)
  finally have b: "mset (map fst ?m) \<subseteq># mset ys" unfolding eq .
  from a b show ?thesis by simp
qed


lemma black_le_total:
  "length (filter (\<lambda>(s, g). s = g) (zip xs ys)) \<le> size (mset xs \<inter># mset ys)"
proof -
  let ?m = "filter (\<lambda>(s, g). s = g) (zip xs ys)"
  have "size (mset (map fst ?m)) \<le> size (mset xs \<inter># mset ys)"
    by (rule size_mset_mono[OF matched_sub])
  moreover have "size (mset (map fst ?m)) = length ?m"
    by (simp only: size_mset length_map)
  ultimately show ?thesis by simp
qed

lemma total_le_length: "size (mset xs \<inter># mset ys) \<le> length ys"
  using size_mset_mono[of "mset xs \<inter># mset ys" "mset ys"] by simp

lemma black_swap:
  "length (filter (\<lambda>(s, g). s = g) (zip xs ys)) = length (filter (\<lambda>(s, g). s = g) (zip ys xs))"
proof -
  have "zip xs ys = map (\<lambda>(a, b). (b, a)) (zip ys xs)" by (rule zip_commute)
  then show ?thesis by (simp add: filter_map comp_def case_prod_unfold eq_commute)
qed

lemma black_all:
  assumes "length xs = length ys"
  shows "length (filter (\<lambda>(s, g). s = g) (zip xs ys)) = length xs \<longleftrightarrow> ys = xs"
  using assms
proof (induction xs ys rule: list_induct2)
  case Nil
  show ?case by simp
next
  case (Cons x xs y ys)
  have "length (filter (\<lambda>(s, g). s = g) (zip xs ys)) \<le> length xs"
    using length_filter_le[of _ "zip xs ys"] Cons.hyps by simp
  with Cons show ?case by auto
qed

lemma check_guess_eq:
  assumes "length xs = length ys"
  shows "check_guess xs ys =
           Inr (int (length (filter (\<lambda>(s, g). s = g) (zip xs ys))),
                int (size (mset xs \<inter># mset ys))
                  - int (length (filter (\<lambda>(s, g). s = g) (zip xs ys))))"
  using assms by (simp add: check_guess_def black_filter total_mset Let_def)

lemma check_guess_code:
  "check_guess sec guess =
     (if length sec \<noteq> length guess then Inl ValueError
      else
        let black = sum_list (map (\<lambda>(s, g). if s = g then 1 else 0) (zip sec guess));
            total_matches =
              sum_list (map (\<lambda>c. min (int (count_list sec c)) (int (count_list guess c)))
                (remdups guess))
        in Inr (black, total_matches - black))"
  by (simp add: check_guess_def sum_code)

lemma list_mul_single: "list_mul [x] n = replicate (nat n) x"
  by (induction "nat n" arbitrary: n) (simp_all add: list_mul_def)

subsection \<open>Scoring\<close>

text \<open>
  Claim C1. For a secret and a guess of equal length, \<open>check_guess\<close> returns as black
  the number of positions at which the two agree, and as white the sum, over the
  distinct colours of the guess, of the smaller of the colour's counts in the secret and
  in the guess, minus black. The two examples of the specification evaluate to
  \<open>(2, 0)\<close> and \<open>(1, 2)\<close>.
\<close>

theorem check_guess_counts:
  assumes "length sec = length guess"
  shows "check_guess sec guess =
           Inr (int (card {i. i < length guess \<and> sec ! i = guess ! i}),
                (\<Sum>c\<in>set guess. min (int (count_list sec c)) (int (count_list guess c)))
                  - int (card {i. i < length guess \<and> sec ! i = guess ! i}))
         \<and> check_guess [''A'', ''A'', ''B'', ''B''] [''A'', ''A'', ''A'', ''A''] = Inr (2, 0)
         \<and> check_guess [''A'', ''B'', ''C'', ''D''] [''A'', ''C'', ''B'', ''X''] = Inr (1, 2)"
proof -
  have "check_guess sec guess =
           Inr (int (card {i. i < length guess \<and> sec ! i = guess ! i}),
                (\<Sum>c\<in>set guess. min (int (count_list sec c)) (int (count_list guess c)))
                  - int (card {i. i < length guess \<and> sec ! i = guess ! i}))"
    using assms by (simp add: check_guess_def black_filter black_card Let_def)
  moreover have "check_guess [''A'', ''A'', ''B'', ''B''] [''A'', ''A'', ''A'', ''A''] = Inr (2, 0)"
    by (simp add: check_guess_code)
  moreover have "check_guess [''A'', ''B'', ''C'', ''D''] [''A'', ''C'', ''B'', ''X''] = Inr (1, 2)"
    by (simp add: check_guess_code)
  ultimately show ?thesis by blast
qed

theorem check_guess_counts_witness:
  "length [''A'', ''B'', ''C'', ''D''] = length [''A'', ''C'', ''B'', ''X'']
   \<and> int (card {i. i < length [''A'', ''C'', ''B'', ''X'']
                 \<and> [''A'', ''B'', ''C'', ''D''] ! i = [''A'', ''C'', ''B'', ''X''] ! i}) = 1
   \<and> (\<Sum>c\<in>set [''A'', ''C'', ''B'', ''X''].
         min (int (count_list [''A'', ''B'', ''C'', ''D''] c))
             (int (count_list [''A'', ''C'', ''B'', ''X''] c))) = 3"
proof -
  have len: "length [''A'', ''B'', ''C'', ''D''] = length [''A'', ''C'', ''B'', ''X'']"
    by simp
  have "check_guess [''A'', ''B'', ''C'', ''D''] [''A'', ''C'', ''B'', ''X''] = Inr (1, 2)"
    by (simp add: check_guess_code)
  with check_guess_counts[OF len] have
    "int (card {i. i < length [''A'', ''C'', ''B'', ''X'']
                 \<and> [''A'', ''B'', ''C'', ''D''] ! i = [''A'', ''C'', ''B'', ''X''] ! i}) = 1"
    and "(\<Sum>c\<in>set [''A'', ''C'', ''B'', ''X''].
         min (int (count_list [''A'', ''B'', ''C'', ''D''] c))
             (int (count_list [''A'', ''C'', ''B'', ''X''] c)))
          - int (card {i. i < length [''A'', ''C'', ''B'', ''X'']
                 \<and> [''A'', ''B'', ''C'', ''D''] ! i = [''A'', ''C'', ''B'', ''X''] ! i}) = 2"
    by simp_all
  with len show ?thesis by simp
qed

text \<open>
  Claim C2. For a secret and a guess of equal length, \<open>check_guess\<close> returns a pair
  whose components are not negative and whose sum is at most the common length.
\<close>

theorem check_guess_bounds:
  assumes "length sec = length guess"
  shows "\<exists>black white. check_guess sec guess = Inr (black, white)
           \<and> 0 \<le> black \<and> 0 \<le> white \<and> black + white \<le> int (length guess)"
  using assms black_le_total[of sec guess] total_le_length[of sec guess]
  by (simp add: check_guess_eq)

theorem check_guess_bounds_witness:
  "length [''A'', ''B'', ''C'', ''D''] = length [''A'', ''C'', ''B'', ''X'']
   \<and> check_guess [''A'', ''B'', ''C'', ''D''] [''A'', ''C'', ''B'', ''X''] = Inr (1, 2)
   \<and> (0::int) \<le> 1 \<and> (0::int) \<le> 2 \<and> (1::int) + 2 \<le> int (length [''A'', ''C'', ''B'', ''X''])"
  using check_guess_bounds[of "[''A'', ''B'', ''C'', ''D'']" "[''A'', ''C'', ''B'', ''X'']"]
  by (simp add: check_guess_code)

text \<open>
  Claim C9. Scoring is symmetric: for lists of equal length, swapping secret and guess
  gives the same pair, although the sum runs over the distinct colours of the second
  argument only.
\<close>

theorem check_guess_symmetric:
  assumes "length s = length g"
  shows "check_guess s g = check_guess g s"
  using assms black_swap[of s g]
  by (simp add: check_guess_eq subset_mset.inf_commute)

theorem check_guess_symmetric_witness:
  "length [''A'', ''A'', ''B'', ''C''] = length [''B'', ''A'', ''D'', ''D'']
   \<and> check_guess [''A'', ''A'', ''B'', ''C''] [''B'', ''A'', ''D'', ''D''] = Inr (1, 1)
   \<and> check_guess [''B'', ''A'', ''D'', ''D''] [''A'', ''A'', ''B'', ''C''] = Inr (1, 1)"
  using check_guess_symmetric[of "[''A'', ''A'', ''B'', ''C'']" "[''B'', ''A'', ''D'', ''D'']"]
  by (simp add: check_guess_code)

subsection \<open>Generating the secret\<close>

lemma generate_code_eq:
  "generate_code g colors len =
     (if colors = [] \<and> 1 \<le> len then Inl IndexError
      else Inr (map (\<lambda>i. colors ! (g i mod length colors)) [0..<nat len]))"
  by (simp add: generate_code_def choices_eq)

text \<open>
  Claim C6 says that \<open>generate_code\<close> fails whenever the length is below 1 or the
  palette is empty. The code validates neither argument: with length 0 the comprehension
  runs over an empty range and the empty list is returned.
\<close>

theorem generate_code_zero_length:
  "generate_code id COLORS 0 = Inr [] \<and> \<not> isl (generate_code id COLORS 0)"
  by (simp add: generate_code_eq)

text \<open>
  Claim C6, amended. \<open>generate_code\<close> fails exactly when the palette is empty and the
  length is at least 1, and then with the IndexError of \<open>random.choice\<close>; for a length
  below 1 it returns the empty list, whatever the palette.
\<close>

theorem generate_code_fails_iff:
  "(isl (generate_code g colors len) \<longleftrightarrow> colors = [] \<and> 1 \<le> len)
   \<and> (colors = [] \<and> 1 \<le> len \<longrightarrow> generate_code g colors len = Inl IndexError)
   \<and> (len < 1 \<longrightarrow> generate_code g colors len = Inr [])"
  by (simp add: generate_code_eq)

theorem generate_code_fails_iff_witness:
  "generate_code id ([] :: string list) 4 = Inl IndexError
   \<and> generate_code id ([] :: string list) 0 = Inr []
   \<and> generate_code id COLORS (- 1) = Inr []
   \<and> \<not> isl (generate_code id COLORS 4)"
  using generate_code_fails_iff[of id "[] :: string list" 4]
    generate_code_fails_iff[of id "[] :: string list" 0]
    generate_code_fails_iff[of id COLORS "- 1"]
    generate_code_fails_iff[of id COLORS 4]
  by (simp add: COLORS_def)

text \<open>
  Claim C7. For a length of at least 1 and a palette that is not empty,
  \<open>generate_code\<close> returns a list of exactly that many elements, each a member of the
  palette, whatever the generator draws.
\<close>

theorem generate_code_length_members:
  assumes "1 \<le> len" and "colors \<noteq> []"
  shows "\<exists>code. generate_code g colors len = Inr code
           \<and> int (length code) = len \<and> set code \<subseteq> set colors"
  using assms by (auto simp: generate_code_eq)

theorem generate_code_length_members_witness:
  "(1::int) \<le> 4 \<and> COLORS \<noteq> []
   \<and> generate_code id COLORS 4 = Inr [''#38ffff'', ''#ff6a00'', ''#ccf300'', ''#ff5e9c'']
   \<and> int (length [''#38ffff'', ''#ff6a00'', ''#ccf300'', ''#ff5e9c'']) = 4
   \<and> set [''#38ffff'', ''#ff6a00'', ''#ccf300'', ''#ff5e9c''] \<subseteq> set COLORS"
proof -
  have a: "(1::int) \<le> 4" by simp
  have b: "COLORS \<noteq> []" by (simp add: COLORS_def)
  have c: "generate_code id COLORS 4 = Inr [''#38ffff'', ''#ff6a00'', ''#ccf300'', ''#ff5e9c'']"
    by (simp add: generate_code_eq COLORS_def upt_conv_Cons)
  from generate_code_length_members[OF a b, of id] a b c show ?thesis
    by auto
qed

subsection \<open>Formatting the feedback\<close>

text \<open>
  Claim C8. When black and white are not negative and their sum is at most the length,
  \<open>format_feedback\<close> returns black times \<open>black\<close>, then white times \<open>white\<close>, then
  \<open>empty\<close> for the rest, a list of the given length; for all other arguments it
  raises ValueError. \<open>format_feedback 2 1 4\<close> is black, black, white, empty.
\<close>

theorem format_feedback_spec:
  "(0 \<le> black \<and> 0 \<le> white \<and> black + white \<le> len \<longrightarrow>
      format_feedback black white len =
        Inr (replicate (nat black) ''black'' @ replicate (nat white) ''white''
             @ replicate (nat (len - black - white)) ''empty'')
      \<and> int (length (replicate (nat black) ''black'' @ replicate (nat white) ''white''
             @ replicate (nat (len - black - white)) ''empty'')) = len)
   \<and> (\<not> (0 \<le> black \<and> 0 \<le> white \<and> black + white \<le> len) \<longrightarrow>
      format_feedback black white len = Inl ValueError)
   \<and> format_feedback 2 1 4 = Inr [''black'', ''black'', ''white'', ''empty'']"
  by (auto simp: format_feedback_def list_mul_single eval_nat_numeral)

theorem format_feedback_spec_witness:
  "format_feedback 1 2 4 = Inr [''black'', ''white'', ''white'', ''empty'']
   \<and> format_feedback 3 2 4 = Inl ValueError
   \<and> format_feedback (- 1) 2 4 = Inl ValueError"
  using format_feedback_spec[of 1 2 4] format_feedback_spec[of 3 2 4]
    format_feedback_spec[of "- 1" 2 4]
  by (simp add: eval_nat_numeral)

section \<open>Properties of the session\<close>

subsection \<open>What a click does to a session in progress\<close>

lemma index_of_None: "index_of xs x = None \<longleftrightarrow> x \<notin> set xs"
  by (induction xs) auto

lemma index_of_Some: "index_of xs x = Some p \<Longrightarrow> p < length xs"
  by (induction xs arbitrary: p) (auto split: if_splits)

lemma draw_feedback_from_ok:
  "i + length fb \<le> length fills \<Longrightarrow>
   \<exists>fills'. draw_feedback_from i fills fb = Inr fills' \<and> length fills' = length fills"
  by (induction i fills fb rule: draw_feedback_from.induct) auto

lemma format_feedback_ok:
  assumes "0 \<le> b" "0 \<le> w" "b + w \<le> n"
  shows "\<exists>fb. format_feedback b w n = Inr fb \<and> length fb = nat n"
  using assms by (simp add: format_feedback_def list_mul_single)

lemma score_in_range:
  assumes "length xs = length ys"
  shows "\<exists>black white. check_guess xs ys = Inr (black, white)
           \<and> 0 \<le> black \<and> 0 \<le> white \<and> black + white \<le> int (length ys)"
  using assms black_le_total[of xs ys] total_le_length[of xs ys]
  by (simp add: check_guess_eq)

lemma score_row_ok:
  assumes "length sec = nat CODE_LENGTH" and "row_shape row"
  shows "\<exists>b w fills. check_guess (map Some sec) (guess_state row) = Inr (b, w)
           \<and> score_row sec row = Inr (b, row\<lparr>fb_fill := fills\<rparr>)
           \<and> length fills = 4"
proof -
  have len: "length (map Some sec) = length (guess_state row)"
    using assms by (simp add: row_shape_def)
  from score_in_range[OF len] obtain b w where
    cg: "check_guess (map Some sec) (guess_state row) = Inr (b, w)"
    and bw: "0 \<le> b" "0 \<le> w" "b + w \<le> int (length (guess_state row))"
    by blast
  have "b + w \<le> CODE_LENGTH"
    using bw(3) assms(2) by (simp add: row_shape_def CODE_LENGTH_def)
  from format_feedback_ok[OF bw(1,2) this] obtain fb where
    ff: "format_feedback b w CODE_LENGTH = Inr fb" and lf: "length fb = nat CODE_LENGTH"
    by blast
  have "0 + length fb \<le> length (fb_fill row)"
    using lf assms(2) by (simp add: row_shape_def CODE_LENGTH_def)
  from draw_feedback_from_ok[OF this] obtain fills where
    df: "draw_feedback (fb_fill row) fb = Inr fills" and lfl: "length fills = length (fb_fill row)"
    unfolding draw_feedback_def by blast
  have "score_row sec row = Inr (b, row\<lparr>fb_fill := fills\<rparr>)"
    by (simp add: score_row_def cg ff df)
  moreover have "length fills = 4"
    using lfl assms(2) by (simp add: row_shape_def)
  ultimately show ?thesis using cg by blast
qed


lemma list_all_take_nth:
  "list_all P (take k xs) \<Longrightarrow> i < k \<Longrightarrow> i < length xs \<Longrightarrow> P (xs ! i)"
  by (simp add: list_all_length)

lemma list_all_drop_nth:
  assumes "list_all P (drop k xs)" and "k \<le> i" and "i < length xs"
  shows "P (xs ! i)"
proof -
  have "i - k < length (drop k xs)" using assms by simp
  with assms(1) have "P (drop k xs ! (i - k))" by (simp only: list_all_length)
  then show ?thesis using assms by simp
qed

lemma inv_current:
  assumes "session_inv s" and "\<not> game_over s"
  shows "0 \<le> current_try s" and "current_try s < MAX_TRIES"
    and "nat (current_try s) < length (rows s)"
    and "py_index (rows s) (current_try s) = Inr (nat (current_try s))"
    and "row_shape (rows s ! nat (current_try s))"
    and "\<not> row_complete (rows s ! nat (current_try s))"
    and "\<not> solved (rows s ! nat (current_try s))"
proof -
  show a: "0 \<le> current_try s" using assms by (simp add: session_inv_def)
  show b: "current_try s < MAX_TRIES"
    using assms by (auto simp: session_inv_def split: if_splits)
  show c: "nat (current_try s) < length (rows s)"
    using a b assms(1) by (simp add: session_inv_def)
  show "py_index (rows s) (current_try s) = Inr (nat (current_try s))"
    using a c by (simp add: py_index_def)
  show "row_shape (rows s ! nat (current_try s))"
    using assms(1) c by (simp add: session_inv_def list_all_length)
  show "\<not> row_complete (rows s ! nat (current_try s))"
    using assms b by (simp add: session_inv_def)
  show "\<not> solved (rows s ! nat (current_try s))"
    using assms b by (simp add: session_inv_def)
qed

lemma inv_unsolved:
  assumes "session_inv s" and "\<not> game_over s" and "i < length (rows s)"
  shows "\<not> solved (rows s ! i)"
proof -
  let ?k = "nat (current_try s)"
  consider "i < ?k" | "i = ?k" | "Suc ?k \<le> i" by linarith
  then show ?thesis
  proof cases
    case 1
    have "list_all (\<lambda>r. row_complete r \<and> \<not> solved r) (take ?k (rows s))"
      using assms(1) by (simp add: session_inv_def)
    from list_all_take_nth[OF this 1 assms(3)] show ?thesis by simp
  next
    case 2
    then show ?thesis using inv_current(7)[OF assms(1,2)] by simp
  next
    case 3
    have "list_all (\<lambda>r. \<not> row_complete r \<and> \<not> solved r) (drop (Suc ?k) (rows s))"
      using assms(1) by (simp add: session_inv_def)
    from list_all_drop_nth[OF this 3 assms(3)] show ?thesis by simp
  qed
qed


lemma steps_result:
  assumes "session_inv s" and "\<not> game_over s"
  shows "\<exists>row1. guess_state row1 = submitted_guess color s \<and> row_shape row1 \<and> \<not> solved row1
           \<and> (if None \<in> set (submitted_guess color s)
               then palette_click_steps color s =
                      Inr (s\<lparr>rows := (rows s)[nat (current_try s) := row1]\<rparr>, NoDialog)
               else \<exists>b w. check_guess (map Some (secret s)) (submitted_guess color s) = Inr (b, w)
                      \<and> palette_click_steps color s =
                          Inr (finish_row (nat (current_try s)) b row1 s))"
proof -
  let ?k = "nat (current_try s)"
  let ?row = "rows s ! ?k"
  note cur = inv_current[OF assms]
  have "None \<in> set (guess_state ?row)"
    using cur(6) by (simp add: row_complete_def)
  then obtain pos where pos: "index_of (guess_state ?row) None = Some pos"
    using index_of_None[of "guess_state ?row" None] by fastforce
  have pos_lt: "pos < length (peg_fill ?row)"
    using index_of_Some[OF pos] cur(5) by (simp add: row_shape_def)
  define row1 where "row1 = ?row\<lparr>guess_state := (guess_state ?row)[pos := Some color],
                              peg_fill := (peg_fill ?row)[pos := color]\<rparr>"
  have fp: "fill_peg color pos ?row = Inr row1"
    using pos_lt by (simp add: fill_peg_def row1_def)
  have g1: "guess_state row1 = submitted_guess color s"
    by (simp add: row1_def submitted_guess_def pos)
  have sh1: "row_shape row1"
    using cur(5) by (simp add: row1_def row_shape_def)
  have us1: "\<not> solved row1"
    using cur(7) by (simp add: row1_def)
  show ?thesis
  proof (cases "None \<in> set (submitted_guess color s)")
    case True
    then have "palette_click_steps color s = Inr (s\<lparr>rows := (rows s)[?k := row1]\<rparr>, NoDialog)"
      using assms(2) by (simp add: palette_click_steps_def cur(4) pos fp g1)
    with True g1 sh1 us1 show ?thesis by auto
  next
    case False
    have "length (secret s) = nat CODE_LENGTH"
      using assms(1) by (simp add: session_inv_def)
    from score_row_ok[OF this sh1] obtain b w fills where
      cg: "check_guess (map Some (secret s)) (guess_state row1) = Inr (b, w)"
      and sr: "score_row (secret s) row1 = Inr (b, row1\<lparr>fb_fill := fills\<rparr>)"
      and lf: "length fills = 4"
      by blast
    let ?row2 = "row1\<lparr>fb_fill := fills\<rparr>"
    have st: "palette_click_steps color s = Inr (finish_row ?k b ?row2 s)"
      using assms(2) False by (simp add: palette_click_steps_def cur(4) pos fp g1 sr)
    have g2: "guess_state ?row2 = submitted_guess color s" using g1 by simp
    have sh2: "row_shape ?row2" using sh1 lf by (simp add: row_shape_def)
    have us2: "\<not> solved ?row2" using us1 by simp
    have cg2: "check_guess (map Some (secret s)) (submitted_guess color s) = Inr (b, w)"
      using cg g1 by simp
    show ?thesis
      apply (rule exI[of _ "?row2"])
      apply (simp only: g2 sh2 us2 False if_False simp_thms)
      using cg2 st apply blast
      done
  qed
qed

subsection \<open>The invariant in terms of row numbers\<close>

lemma list_all_take_conv:
  "list_all P (take k xs) \<longleftrightarrow> (\<forall>i<length xs. i < k \<longrightarrow> P (xs ! i))"
  by (auto simp: list_all_length)

lemma list_all_drop_conv:
  "list_all P (drop k xs) \<longleftrightarrow> (\<forall>i<length xs. k \<le> i \<longrightarrow> P (xs ! i))"
proof
  assume "list_all P (drop k xs)"
  then show "\<forall>i<length xs. k \<le> i \<longrightarrow> P (xs ! i)"
    using list_all_drop_nth[of P k xs] by blast
next
  assume a: "\<forall>i<length xs. k \<le> i \<longrightarrow> P (xs ! i)"
  show "list_all P (drop k xs)"
    unfolding list_all_length
  proof (intro allI impI)
    fix n assume "n < length (drop k xs)"
    then have "k + n < length xs" by simp
    with a have "P (xs ! (k + n))" by simp
    then show "P (drop k xs ! n)" using \<open>k + n < length xs\<close> by simp
  qed
qed

lemma session_inv_nth:
  "session_inv s \<longleftrightarrow>
     length (secret s) = nat CODE_LENGTH \<and> set (secret s) \<subseteq> set COLORS \<and>
     length (rows s) = nat MAX_TRIES \<and>
     (\<forall>i<length (rows s). row_shape (rows s ! i)) \<and>
     0 \<le> current_try s \<and> current_try s \<le> MAX_TRIES \<and>
     (\<forall>i<length (rows s). i < nat (current_try s) \<longrightarrow>
          row_complete (rows s ! i) \<and> \<not> solved (rows s ! i)) \<and>
     (\<forall>i<length (rows s). Suc (nat (current_try s)) \<le> i \<longrightarrow>
          \<not> row_complete (rows s ! i) \<and> \<not> solved (rows s ! i)) \<and>
     (if current_try s < MAX_TRIES
      then solved (rows s ! nat (current_try s)) = game_over s \<and>
           row_complete (rows s ! nat (current_try s)) = game_over s
      else game_over s)"
  unfolding session_inv_def list_all_take_conv list_all_drop_conv
  by (simp only: list_all_length)

lemma no_solved_after:
  assumes "session_inv s" and "\<not> game_over s" and "\<not> solved r"
  shows "\<not> list_ex solved ((rows s)[i := r])"
proof
  assume "list_ex solved ((rows s)[i := r])"
  then obtain x where x: "x \<in> set ((rows s)[i := r])" "solved x"
    by (auto simp: list_ex_iff)
  then have "x \<in> insert r (set (rows s))"
    using set_update_subset_insert[of "rows s" i r] by blast
  with x(2) assms(3) have "x \<in> set (rows s)" by auto
  then obtain j where "j < length (rows s)" "rows s ! j = x"
    by (auto simp: in_set_conv_nth)
  with inv_unsolved[OF assms(1,2)] x(2) show False by blast
qed

lemma inv_open_row:
  assumes "session_inv s" and "\<not> game_over s"
    and "row_shape r" and "\<not> solved r" and "\<not> row_complete r"
  shows "session_inv (s\<lparr>rows := (rows s)[nat (current_try s) := r]\<rparr>)"
  using assms inv_current(2)[OF assms(1,2)]
  unfolding session_inv_nth
  by (simp add: nth_list_update)

lemma inv_win_row:
  assumes "session_inv s" and "\<not> game_over s"
    and "row_shape r" and "row_complete r"
  shows "session_inv (s\<lparr>rows := (rows s)[nat (current_try s) := r\<lparr>solved := True\<rparr>],
                        game_over := True\<rparr>)"
  using assms inv_current(2,3)[OF assms(1,2)]
  unfolding session_inv_nth
  by (simp add: nth_list_update row_shape_def row_complete_def)


lemma inv_next_row:
  assumes "session_inv s" and "\<not> game_over s"
    and "row_shape r" and "row_complete r" and "\<not> solved r"
  shows "session_inv (s\<lparr>rows := (rows s)[nat (current_try s) := r],
                        current_try := current_try s + 1,
                        game_over := MAX_TRIES \<le> current_try s + 1\<rparr>)"
proof -
  have k: "nat (current_try s + 1) = Suc (nat (current_try s))"
    using inv_current(1)[OF assms(1,2)] by simp
  show ?thesis
    using assms inv_current(1,2,3)[OF assms(1,2)]
    unfolding session_inv_nth
    by (simp add: nth_list_update k less_Suc_eq)
qed

lemma finish_row_win:
  "b = CODE_LENGTH \<Longrightarrow>
   finish_row k b r s =
     (s\<lparr>rows := (rows s)[k := r\<lparr>solved := True\<rparr>], game_over := True\<rparr>, WinDialog)"
  by (simp add: finish_row_def)

lemma finish_row_loss:
  "b \<noteq> CODE_LENGTH \<Longrightarrow> MAX_TRIES \<le> current_try s + 1 \<Longrightarrow>
   finish_row k b r s =
     (s\<lparr>rows := (rows s)[k := r], current_try := current_try s + 1, game_over := True\<rparr>,
      LossDialog)"
  by (simp add: finish_row_def Let_def)

lemma finish_row_next:
  "b \<noteq> CODE_LENGTH \<Longrightarrow> \<not> MAX_TRIES \<le> current_try s + 1 \<Longrightarrow>
   finish_row k b r s =
     (s\<lparr>rows := (rows s)[k := r], current_try := current_try s + 1,
        status_label := (current_try s + 1 + 1, MAX_TRIES)\<rparr>, NoDialog)"
  by (simp add: finish_row_def Let_def)

lemma session_inv_status: "session_inv (s\<lparr>status_label := x\<rparr>) = session_inv s"
  by (simp add: session_inv_def)

lemma inv_finish_row:
  assumes "session_inv s" and "\<not> game_over s"
    and "row_shape r" and "row_complete r" and "\<not> solved r"
  shows "session_inv (fst (finish_row (nat (current_try s)) b r s))"
proof -
  let ?k = "nat (current_try s)"
  consider "b = CODE_LENGTH" | "b \<noteq> CODE_LENGTH" "MAX_TRIES \<le> current_try s + 1"
    | "b \<noteq> CODE_LENGTH" "\<not> MAX_TRIES \<le> current_try s + 1" by blast
  then show ?thesis
  proof cases
    case 1
    show ?thesis
      unfolding finish_row_win[OF 1] fst_conv by (rule inv_win_row[OF assms(1-4)])
  next
    case 2
    have "(MAX_TRIES \<le> current_try s + 1) = True" using 2 by simp
    from inv_next_row[OF assms, unfolded this] show ?thesis
      unfolding finish_row_loss[OF 2] fst_conv .
  next
    case 3
    let ?s1 = "s\<lparr>rows := (rows s)[?k := r], current_try := current_try s + 1\<rparr>"
    have eq: "s\<lparr>rows := (rows s)[?k := r], current_try := current_try s + 1,
                game_over := MAX_TRIES \<le> current_try s + 1\<rparr> = ?s1"
      using 3(2) assms(2) by (cases s) simp
    from inv_next_row[OF assms] have "session_inv ?s1" unfolding eq .
    then show ?thesis
      unfolding finish_row_next[OF 3] fst_conv by (simp only: session_inv_status)
  qed
qed

lemma finish_row_state:
  assumes "session_inv s" and "\<not> game_over s" and "\<not> solved r"
  shows "session_state (fst (finish_row (nat (current_try s)) b r s)) =
           (if b = CODE_LENGTH then Won
            else if current_try s = MAX_TRIES - 1 then Lost else InProgress)"
proof -
  let ?k = "nat (current_try s)"
  have win: "list_ex solved ((rows s)[?k := r\<lparr>solved := True\<rparr>])"
    unfolding list_ex_iff
    by (rule bexI[OF _ set_update_memI[OF inv_current(3)[OF assms(1,2)]]]) simp
  note no = no_solved_after[OF assms, of ?k]
  note lt = inv_current(2)[OF assms(1,2)]
  consider "b = CODE_LENGTH" | "b \<noteq> CODE_LENGTH" "MAX_TRIES \<le> current_try s + 1"
    | "b \<noteq> CODE_LENGTH" "\<not> MAX_TRIES \<le> current_try s + 1" by blast
  then show ?thesis
  proof cases
    case 1
    show ?thesis
      unfolding finish_row_win[OF 1] fst_conv using win 1 by (simp add: session_state_def)
  next
    case 2
    have "current_try s = MAX_TRIES - 1" using 2(2) lt by simp
    then show ?thesis
      unfolding finish_row_loss[OF 2] fst_conv using no 2(1) by (simp add: session_state_def)
  next
    case 3
    have "current_try s \<noteq> MAX_TRIES - 1" using 3(2) by simp
    then show ?thesis
      unfolding finish_row_next[OF 3] fst_conv using assms(2) 3(1)
      by (simp add: session_state_def)
  qed
qed

lemma finish_row_dialog:
  assumes "session_inv s" and "\<not> game_over s"
  shows "snd (finish_row k b r s) =
           (if b = CODE_LENGTH then WinDialog
            else if current_try s = MAX_TRIES - 1 then LossDialog else NoDialog)"
    and "current_try (fst (finish_row k b r s)) =
           (if b = CODE_LENGTH then current_try s else current_try s + 1)"
  using inv_current(2)[OF assms] by (auto simp: finish_row_def Let_def)


subsection \<open>The invariant holds from the start and after every event\<close>

lemma steps_inv:
  assumes "session_inv s"
  shows "\<exists>s' d. palette_click_steps color s = Inr (s', d) \<and> session_inv s'"
proof (cases "game_over s")
  case True
  then show ?thesis using assms by (simp add: palette_click_steps_def)
next
  case False
  from steps_result[OF assms False, of color] obtain row1 where
    g: "guess_state row1 = submitted_guess color s" and sh: "row_shape row1"
    and us: "\<not> solved row1"
    and res: "if None \<in> set (submitted_guess color s)
               then palette_click_steps color s =
                      Inr (s\<lparr>rows := (rows s)[nat (current_try s) := row1]\<rparr>, NoDialog)
               else \<exists>b w. check_guess (map Some (secret s)) (submitted_guess color s) = Inr (b, w)
                      \<and> palette_click_steps color s =
                          Inr (finish_row (nat (current_try s)) b row1 s)"
    by blast
  show ?thesis
  proof (cases "None \<in> set (submitted_guess color s)")
    case True
    then have "\<not> row_complete row1" using g by (simp add: row_complete_def)
    from inv_open_row[OF assms False sh us this] res True show ?thesis by simp
  next
    case nf: False
    then have rc: "row_complete row1" using g by (simp add: row_complete_def)
    from res nf obtain b where
      st: "palette_click_steps color s = Inr (finish_row (nat (current_try s)) b row1 s)"
      by auto
    from inv_finish_row[OF assms False sh rc us, of b] st show ?thesis
      by (cases "finish_row (nat (current_try s)) b row1 s") simp
  qed
qed

lemma display_names_ok: "set cs \<subseteq> set COLORS \<Longrightarrow> \<exists>ns. display_names cs = Inr ns"
proof (induction cs)
  case Nil
  show ?case by simp
next
  case (Cons c cs)
  then obtain ns where ns: "display_names cs = Inr ns" by auto
  from Cons.prems have "c \<in> set COLORS" by simp
  then obtain n where "DISPLAY_NAMES c = Some n"
    by (auto simp: COLORS_def DISPLAY_NAMES_def)
  with ns show ?case by simp
qed

lemma reset_row_facts:
  "row_shape r \<Longrightarrow> row_shape (reset_row r)"
  "\<not> row_complete (reset_row r)"
  "\<not> solved (reset_row r)"
  by (simp_all add: reset_row_def row_shape_def row_complete_def list_mul_single CODE_LENGTH_def)

lemma reset_game_inv:
  assumes "length (rows s) = nat MAX_TRIES" and "list_all row_shape (rows s)"
  shows "\<exists>s'. reset_game s = Inr s' \<and> session_inv s' \<and> \<not> game_over s' \<and> current_try s' = 0"
proof -
  let ?code = "map (\<lambda>i. COLORS ! (rand s i mod length COLORS)) [0..<nat CODE_LENGTH]"
  have ne: "COLORS \<noteq> []" by (simp add: COLORS_def)
  then have gc: "generate_code (rand s) COLORS CODE_LENGTH = Inr ?code"
    by (simp add: generate_code_eq)
  have mem: "set ?code \<subseteq> set COLORS" using ne by auto
  let ?s' = "s\<lparr>secret := ?code, rand := advance (nat CODE_LENGTH) (rand s), current_try := 0,
               game_over := False, rows := map reset_row (rows s),
               status_label := (0 + 1, MAX_TRIES)\<rparr>"
  have r: "reset_game s = Inr ?s'" by (simp add: reset_game_def gc)
  have "session_inv ?s'"
    using assms mem reset_row_facts
    by (simp add: session_inv_def list_all_length MAX_TRIES_def)
  with r show ?thesis by simp
qed

lemma palette_click_inv:
  assumes "session_inv s"
  shows "\<exists>s'. palette_click answer color s = Inr s' \<and> session_inv s'"
proof -
  from steps_inv[OF assms, of color] obtain s1 d where
    st: "palette_click_steps color s = Inr (s1, d)" and inv1: "session_inv s1" by blast
  from inv1 obtain ns where ns: "display_names (secret s1) = Inr ns"
    using display_names_ok[of "secret s1"] by (auto simp: session_inv_def)
  from inv1 have "length (rows s1) = nat MAX_TRIES" "list_all row_shape (rows s1)"
    by (simp_all add: session_inv_def)
  from reset_game_inv[OF this] obtain s2 where
    rs: "reset_game s1 = Inr s2" and inv2: "session_inv s2" by blast
  show ?thesis
    using st inv1 ns rs inv2
    by (cases d; cases answer) (simp_all add: palette_click_def reveal_win_def reveal_loss_def)
qed

lemma init_gui_inv: "\<exists>s. init_gui g = Inr s \<and> session_inv s \<and> \<not> game_over s"
proof -
  let ?code = "map (\<lambda>i. COLORS ! (g i mod length COLORS)) [0..<nat CODE_LENGTH]"
  have ne: "COLORS \<noteq> []" by (simp add: COLORS_def)
  then have gc: "generate_code g COLORS CODE_LENGTH = Inr ?code"
    by (simp add: generate_code_eq)
  have mem: "set ?code \<subseteq> set COLORS" using ne by auto
  have "row_shape new_row" "\<not> row_complete new_row" "\<not> solved new_row"
    by (simp_all add: new_row_def row_shape_def row_complete_def list_mul_single CODE_LENGTH_def)
  then show ?thesis
    using mem by (simp add: init_gui_def gc session_inv_def list_all_length MAX_TRIES_def)
qed

subsection \<open>The outcome of a click\<close>

lemma click_summary:
  assumes "session_inv s" and "\<not> game_over s"
  shows "\<exists>s' d. palette_click_steps color s = Inr (s', d) \<and> palette_click False color s = Inr s'
     \<and> (if None \<in> set (submitted_guess color s)
         then session_state s' = InProgress \<and> d = NoDialog
         else \<exists>b w. check_guess (map Some (secret s)) (submitted_guess color s) = Inr (b, w)
            \<and> session_state s' =
                 (if b = CODE_LENGTH then Won
                  else if current_try s = MAX_TRIES - 1 then Lost else InProgress)
            \<and> d = (if b = CODE_LENGTH then WinDialog
                   else if current_try s = MAX_TRIES - 1 then LossDialog else NoDialog)
            \<and> current_try s' = (if b = CODE_LENGTH then current_try s else current_try s + 1))"
proof -
  from steps_inv[OF assms(1), of color] obtain s' d where
    st: "palette_click_steps color s = Inr (s', d)" and inv': "session_inv s'" by blast
  from inv' obtain ns where "display_names (secret s') = Inr ns"
    using display_names_ok[of "secret s'"] by (auto simp: session_inv_def)
  with st have pc: "palette_click False color s = Inr s'"
    by (cases d) (simp_all add: palette_click_def reveal_win_def reveal_loss_def)
  from steps_result[OF assms, of color] obtain row1 where
    us: "\<not> solved row1"
    and res: "if None \<in> set (submitted_guess color s)
               then palette_click_steps color s =
                      Inr (s\<lparr>rows := (rows s)[nat (current_try s) := row1]\<rparr>, NoDialog)
               else \<exists>b w. check_guess (map Some (secret s)) (submitted_guess color s) = Inr (b, w)
                      \<and> palette_click_steps color s =
                          Inr (finish_row (nat (current_try s)) b row1 s)"
    by blast
  show ?thesis
  proof (cases "None \<in> set (submitted_guess color s)")
    case True
    with res st have "s' = s\<lparr>rows := (rows s)[nat (current_try s) := row1]\<rparr>" "d = NoDialog"
      by simp_all
    then have "session_state s' = InProgress" "d = NoDialog"
      using assms(2) by (simp_all add: session_state_def)
    with st pc True show ?thesis by simp
  next
    case False
    with res obtain b w where
      cg: "check_guess (map Some (secret s)) (submitted_guess color s) = Inr (b, w)"
      and fr: "palette_click_steps color s = Inr (finish_row (nat (current_try s)) b row1 s)"
      by auto
    from fr st have "finish_row (nat (current_try s)) b row1 s = (s', d)" by simp
    then have s': "s' = fst (finish_row (nat (current_try s)) b row1 s)"
      and d: "d = snd (finish_row (nat (current_try s)) b row1 s)"
      by simp_all
    have a: "session_state s' =
                 (if b = CODE_LENGTH then Won
                  else if current_try s = MAX_TRIES - 1 then Lost else InProgress)"
      unfolding s' by (rule finish_row_state[OF assms us])
    have b: "d = (if b = CODE_LENGTH then WinDialog
                   else if current_try s = MAX_TRIES - 1 then LossDialog else NoDialog)"
      unfolding d by (rule finish_row_dialog(1)[OF assms])
    have c: "current_try s' = (if b = CODE_LENGTH then current_try s else current_try s + 1)"
      unfolding s' by (rule finish_row_dialog(2)[OF assms])
    from st pc False cg a b c show ?thesis by simp
  qed
qed

lemma lost_iff_rows:
  assumes "session_inv s"
  shows "session_state s = Lost \<longleftrightarrow>
           length (filter row_complete (rows s)) = nat MAX_TRIES \<and> \<not> list_ex solved (rows s)"
proof -
  let ?k = "nat (current_try s)"
  note inv = assms[unfolded session_inv_nth]
  have len: "length (rows s) = nat MAX_TRIES" using inv by simp
  have full_iff: "length (filter row_complete (rows s)) = nat MAX_TRIES
                   \<longleftrightarrow> (\<forall>i<length (rows s). row_complete (rows s ! i))"
  proof
    assume a: "length (filter row_complete (rows s)) = nat MAX_TRIES"
    show "\<forall>i<length (rows s). row_complete (rows s ! i)"
    proof (intro allI impI, rule ccontr)
      fix i assume "i < length (rows s)" and "\<not> row_complete (rows s ! i)"
      then have "length (filter row_complete (rows s)) < length (rows s)"
        by (intro length_filter_less[of "rows s ! i"]) simp_all
      with a len show False by simp
    qed
  next
    assume "\<forall>i<length (rows s). row_complete (rows s ! i)"
    then have "filter row_complete (rows s) = rows s"
      by (auto simp: filter_id_conv in_set_conv_nth)
    then show "length (filter row_complete (rows s)) = nat MAX_TRIES" using len by simp
  qed
  have ex_iff: "list_ex solved (rows s) \<longleftrightarrow> (\<exists>i<length (rows s). solved (rows s ! i))"
    unfolding list_ex_iff by (metis in_set_conv_nth)
  have lost: "session_state s = Lost \<longleftrightarrow>
                game_over s \<and> \<not> (\<exists>i<length (rows s). solved (rows s ! i))"
    by (simp add: session_state_def ex_iff)
  show ?thesis
  proof (cases "current_try s < MAX_TRIES")
    case True
    then have k: "?k < length (rows s)" using inv by simp
    have cur: "solved (rows s ! ?k) = game_over s" "row_complete (rows s ! ?k) = game_over s"
      using inv True by simp_all
    show ?thesis
      unfolding full_iff ex_iff lost using k cur by blast
  next
    case False
    then have ct: "current_try s = MAX_TRIES" and go: "game_over s" using inv by simp_all
    have "\<forall>i<length (rows s). row_complete (rows s ! i) \<and> \<not> solved (rows s ! i)"
      using inv ct by simp
    then show ?thesis
      unfolding full_iff ex_iff lost using go by blast
  qed
qed

subsection \<open>Winning, losing and clicks after the end\<close>

text \<open>
  Claim C3. A click on a session in progress, at any row, takes the session to Won
  exactly when it completes the current row and the completed guess scores as many
  black pegs as the code is long. The handler then opens the win dialog with the row
  counter unchanged, and returns that state when the player declines another game.
\<close>

theorem won_iff_full_black:
  assumes "session_inv s" and "\<not> game_over s"
  shows "\<exists>s' d. palette_click_steps color s = Inr (s', d)
     \<and> (session_state s' = Won \<longleftrightarrow>
          None \<notin> set (submitted_guess color s)
          \<and> (\<exists>w. check_guess (map Some (secret s)) (submitted_guess color s)
                    = Inr (CODE_LENGTH, w)))
     \<and> (d = WinDialog \<longleftrightarrow> session_state s' = Won)
     \<and> (session_state s' = Won \<longrightarrow>
          current_try s' = current_try s \<and> palette_click False color s = Inr s')"
proof -
  from click_summary[OF assms, of color] obtain s' d where
    st: "palette_click_steps color s = Inr (s', d)"
    and pc: "palette_click False color s = Inr s'"
    and res: "if None \<in> set (submitted_guess color s)
         then session_state s' = InProgress \<and> d = NoDialog
         else \<exists>b w. check_guess (map Some (secret s)) (submitted_guess color s) = Inr (b, w)
            \<and> session_state s' =
                 (if b = CODE_LENGTH then Won
                  else if current_try s = MAX_TRIES - 1 then Lost else InProgress)
            \<and> d = (if b = CODE_LENGTH then WinDialog
                   else if current_try s = MAX_TRIES - 1 then LossDialog else NoDialog)
            \<and> current_try s' = (if b = CODE_LENGTH then current_try s else current_try s + 1)"
    by blast
  have "(session_state s' = Won \<longleftrightarrow>
          None \<notin> set (submitted_guess color s)
          \<and> (\<exists>w. check_guess (map Some (secret s)) (submitted_guess color s)
                    = Inr (CODE_LENGTH, w)))
     \<and> (d = WinDialog \<longleftrightarrow> session_state s' = Won)
     \<and> (session_state s' = Won \<longrightarrow> current_try s' = current_try s)"
  proof (cases "None \<in> set (submitted_guess color s)")
    case True
    with res show ?thesis by simp
  next
    case False
    with res obtain b w where
      "check_guess (map Some (secret s)) (submitted_guess color s) = Inr (b, w)"
      "session_state s' =
                 (if b = CODE_LENGTH then Won
                  else if current_try s = MAX_TRIES - 1 then Lost else InProgress)"
      "d = (if b = CODE_LENGTH then WinDialog
                   else if current_try s = MAX_TRIES - 1 then LossDialog else NoDialog)"
      "current_try s' = (if b = CODE_LENGTH then current_try s else current_try s + 1)"
      by auto
    with False show ?thesis by (cases "b = CODE_LENGTH") auto
  qed
  with st pc show ?thesis by blast
qed

theorem won_iff_full_black_witness:
  "session_inv (session_at 1) \<and> \<not> game_over (session_at 1)
   \<and> check_guess (map Some (secret (session_at 1)))
        (submitted_guess ''#ff5e9c'' (session_at 1)) = Inr (CODE_LENGTH, 0)
   \<and> map_sum id (\<lambda>(s', d). (session_state s', d, current_try s'))
        (palette_click_steps ''#ff5e9c'' (session_at 1)) = Inr (Won, WinDialog, 1)"
proof -
  have i: "session_inv (session_at 1)" by code_simp
  have n: "\<not> game_over (session_at 1)" by code_simp
  have f: "None \<notin> set (submitted_guess ''#ff5e9c'' (session_at 1))" by code_simp
  have c: "check_guess (map Some (secret (session_at 1)))
        (submitted_guess ''#ff5e9c'' (session_at 1)) = Inr (CODE_LENGTH, 0)" by code_simp
  have t: "current_try (session_at 1) = 1" by code_simp
  from won_iff_full_black[OF i n, of "''#ff5e9c''"] obtain s' d where
    st: "palette_click_steps ''#ff5e9c'' (session_at 1) = Inr (s', d)"
    and w: "session_state s' = Won \<longleftrightarrow>
          None \<notin> set (submitted_guess ''#ff5e9c'' (session_at 1))
          \<and> (\<exists>w. check_guess (map Some (secret (session_at 1)))
                    (submitted_guess ''#ff5e9c'' (session_at 1)) = Inr (CODE_LENGTH, w))"
    and d: "d = WinDialog \<longleftrightarrow> session_state s' = Won"
    and k: "session_state s' = Won \<longrightarrow> current_try s' = current_try (session_at 1)"
    by blast
  from w f c have won: "session_state s' = Won" by blast
  with d k t have "d = WinDialog" "current_try s' = 1" by simp_all
  with won st i n c show ?thesis by simp
qed

subsection \<open>A whole game, click by click\<close>

lemma wins_iff:
  assumes "length sec = nat CODE_LENGTH"
  shows "wins sec g \<longleftrightarrow> g = sec"
proof (cases "length sec = length g")
  case True
  have "int (length sec) = CODE_LENGTH" using assms by (simp add: CODE_LENGTH_def)
  then show ?thesis
    using black_all[OF True] by (auto simp: wins_def check_guess_eq[OF True])
next
  case False
  then show ?thesis by (auto simp: wins_def check_guess_def)
qed

lemma index_of_filled:
  "0 < n \<Longrightarrow> index_of (map Some p @ replicate n None) None = Some (length p)"
  by (induction p) (auto simp: gr0_conv_Suc)

lemma fill_next_slot:
  "0 < n \<Longrightarrow> (map Some p @ replicate n None)[length p := Some c] =
     map Some (p @ [c]) @ replicate (n - 1) None"
  by (cases n) (simp_all add: list_update_append)

lemma submitted_at_position:
  assumes "at_position s t p"
  shows "submitted_guess c s =
           map Some (p @ [c]) @ replicate (nat CODE_LENGTH - Suc (length p)) None"
proof -
  have n: "0 < nat CODE_LENGTH - length p" using assms by (simp add: at_position_def)
  have g: "guess_state (rows s ! nat (current_try s)) =
             map Some p @ replicate (nat CODE_LENGTH - length p) None"
    using assms by (simp add: at_position_def)
  show ?thesis
    by (simp add: submitted_guess_def g index_of_filled[OF n] fill_next_slot[OF n]
        del: map_append)
qed

lemma clicks_game_over: "game_over s \<Longrightarrow> clicks cs s = Inr s"
  by (induction cs) (simp_all add: palette_click_def palette_click_steps_def)

lemma clicks_append:
  "clicks (cs @ ds) s = (case clicks cs s of Inl e \<Rightarrow> Inl e | Inr s' \<Rightarrow> clicks ds s')"
  by (induction cs arbitrary: s) (auto split: sum.splits)


lemma click_at_position:
  assumes "at_position s t p"
  shows "\<exists>s' d. palette_click_steps c s = Inr (s', d) \<and> palette_click False c s = Inr s'
           \<and> session_inv s' \<and> secret s' = secret s
           \<and> (if Suc (length p) < nat CODE_LENGTH then at_position s' t (p @ [c]) \<and> d = NoDialog
               else if p @ [c] = secret s
                    then game_over s' \<and> session_state s' = Won \<and> d = WinDialog
               else if Suc t = nat MAX_TRIES
                    then game_over s' \<and> session_state s' = Lost \<and> d = LossDialog
               else at_position s' (Suc t) [] \<and> d = NoDialog)"
proof -
  from assms have inv: "session_inv s" and go: "\<not> game_over s"
    and ct: "current_try s = int t" and lp: "length p < nat CODE_LENGTH"
    and later: "list_all (\<lambda>r. guess_state r = replicate (nat CODE_LENGTH) None)
                  (drop (Suc t) (rows s))"
    by (simp_all add: at_position_def)
  have k: "nat (current_try s) = t" using ct by simp
  have tl: "t < length (rows s)" using inv_current(3)[OF inv go] k by simp
  have lr: "length (rows s) = nat MAX_TRIES" using inv by (simp add: session_inv_def)
  have ls: "length (secret s) = nat CODE_LENGTH" using inv by (simp add: session_inv_def)
  note sub = submitted_at_position[OF assms, of c]
  from steps_result[OF inv go, of c] obtain row1 where
    g1: "guess_state row1 = submitted_guess c s" and us: "\<not> solved row1"
    and res: "if None \<in> set (submitted_guess c s)
               then palette_click_steps c s =
                      Inr (s\<lparr>rows := (rows s)[nat (current_try s) := row1]\<rparr>, NoDialog)
               else \<exists>b w. check_guess (map Some (secret s)) (submitted_guess c s) = Inr (b, w)
                      \<and> palette_click_steps c s =
                          Inr (finish_row (nat (current_try s)) b row1 s)"
    by blast
  from click_summary[OF inv go, of c] obtain s' d where
    st: "palette_click_steps c s = Inr (s', d)"
    and pc: "palette_click False c s = Inr s'"
    by blast
  from steps_inv[OF inv, of c] st have inv': "session_inv s'" by auto
  show ?thesis
  proof (cases "Suc (length p) < nat CODE_LENGTH")
    case True
    then have "None \<in> set (submitted_guess c s)" unfolding sub by simp
    with res st have s': "s' = s\<lparr>rows := (rows s)[t := row1]\<rparr>" and d: "d = NoDialog"
      unfolding k by simp_all
    have "guess_state (rows s' ! t) =
            map Some (p @ [c]) @ replicate (nat CODE_LENGTH - length (p @ [c])) None"
      using tl g1 sub by (simp add: s')
    moreover have "drop (Suc t) (rows s') = drop (Suc t) (rows s)"
      by (simp add: s')
    ultimately have "at_position s' t (p @ [c])"
      unfolding at_position_def using inv' go ct True later by (simp add: s')
    moreover have "secret s' = secret s" by (simp add: s')
    ultimately show ?thesis using st pc inv' True d by simp
  next
    case False
    with lp have full: "Suc (length p) = nat CODE_LENGTH" by simp
    then have sub': "submitted_guess c s = map Some (p @ [c])" unfolding sub by simp
    then have "None \<notin> set (submitted_guess c s)" by auto
    with res obtain b w where
      cg: "check_guess (map Some (secret s)) (map Some (p @ [c])) = Inr (b, w)"
      and fr: "palette_click_steps c s = Inr (finish_row t b row1 s)"
      unfolding k sub' by auto
    have len: "length (map Some (secret s)) = length (map Some (p @ [c]))"
      using ls full by simp
    have "b = int (length (filter (\<lambda>(x, y). x = y)
                  (zip (map Some (secret s)) (map Some (p @ [c])))))"
      using cg unfolding check_guess_eq[OF len] by simp
    moreover have "int (length (map Some (secret s))) = CODE_LENGTH"
      using ls by (simp add: CODE_LENGTH_def)
    ultimately have "b = CODE_LENGTH \<longleftrightarrow> map Some (p @ [c]) = map Some (secret s)"
      using black_all[OF len] by auto
    then have bw: "b = CODE_LENGTH \<longleftrightarrow> p @ [c] = secret s"
      by (simp only: inj_map_eq_map[OF inj_Some])
    from fr st have f: "finish_row t b row1 s = (s', d)" by simp
    have state: "session_state s' =
           (if b = CODE_LENGTH then Won
            else if current_try s = MAX_TRIES - 1 then Lost else InProgress)"
      using finish_row_state[OF inv go us, of b] f unfolding k by simp
    have sec: "secret s' = secret s"
      using f by (auto simp: finish_row_def Let_def split: if_splits)
    consider "b = CODE_LENGTH" | "b \<noteq> CODE_LENGTH" "Suc t = nat MAX_TRIES"
      | "b \<noteq> CODE_LENGTH" "Suc t \<noteq> nat MAX_TRIES" by blast
    then show ?thesis
    proof cases
      case 1
      from f have "game_over s'" "d = WinDialog"
        unfolding finish_row_win[OF 1] by auto
      with state 1 bw st pc inv' sec False show ?thesis by simp
    next
      case 2
      have m: "MAX_TRIES \<le> current_try s + 1" "current_try s = MAX_TRIES - 1"
        using 2(2) ct by simp_all
      from f have "game_over s'" "d = LossDialog"
        unfolding finish_row_loss[OF 2(1) m(1)] by auto
      with state 2 m bw st pc inv' sec False show ?thesis by simp
    next
      case 3
      have m: "\<not> MAX_TRIES \<le> current_try s + 1"
        using 3(2) ct tl lr by simp
      from f have s': "s' = s\<lparr>rows := (rows s)[t := row1], current_try := current_try s + 1,
                           status_label := (current_try s + 1 + 1, MAX_TRIES)\<rparr>"
        and d: "d = NoDialog"
        unfolding finish_row_next[OF 3(1) m] by auto
      have st1: "Suc t < length (rows s)" using 3(2) tl lr by simp
      have "guess_state (rows s ! Suc t) = replicate (nat CODE_LENGTH) None"
        using list_all_drop_nth[OF later _ st1] by simp
      then have a: "guess_state (rows s' ! Suc t) = replicate (nat CODE_LENGTH) None"
        by (simp add: s')
      have "list_all (\<lambda>r. guess_state r = replicate (nat CODE_LENGTH) None)
              (drop (Suc (Suc t)) (rows s))"
        using later unfolding list_all_drop_conv by simp
      then have b': "list_all (\<lambda>r. guess_state r = replicate (nat CODE_LENGTH) None)
              (drop (Suc (Suc t)) (rows s'))"
        by (simp add: s')
      have "at_position s' (Suc t) []"
        unfolding at_position_def using inv' a b' go ct by (simp add: s' CODE_LENGTH_def)
      with 3 bw st pc inv' sec False d show ?thesis by simp
    qed
  qed
qed


lemma guess_no_0: "length q = nat CODE_LENGTH \<Longrightarrow> guess_no 0 (q @ xs) = q"
  by (simp add: guess_no_def)

lemma guess_no_Suc:
  "length q = nat CODE_LENGTH \<Longrightarrow> guess_no (Suc j) (q @ xs) = guess_no j xs"
  by (simp add: guess_no_def)

lemma clicks_from_position:
  assumes "at_position s t p"
  shows "\<exists>s'. clicks cs s = Inr s' \<and> session_inv s'
           \<and> (session_state s' = Lost \<longleftrightarrow>
                nat CODE_LENGTH * (nat MAX_TRIES - t) \<le> length (p @ cs)
                \<and> (\<forall>j<nat MAX_TRIES - t. guess_no j (p @ cs) \<noteq> secret s))"
  using assms
proof (induction cs arbitrary: s t p)
  case Nil
  then have inv: "session_inv s" and go: "\<not> game_over s" and ct: "current_try s = int t"
    and lp: "length p < nat CODE_LENGTH"
    by (simp_all add: at_position_def)
  have "t < nat MAX_TRIES" using inv_current(2)[OF inv go] ct by simp
  then obtain m where m: "nat MAX_TRIES - t = Suc m" by (cases "nat MAX_TRIES - t") simp_all
  have "\<not> nat CODE_LENGTH * (nat MAX_TRIES - t) \<le> length (p @ [])"
    unfolding m using lp by simp
  moreover have "session_state s \<noteq> Lost" using go by (simp add: session_state_def)
  ultimately show ?case using inv by simp
next
  case (Cons c cs)
  note pos = Cons.prems
  from pos have inv: "session_inv s" and go: "\<not> game_over s" and ct: "current_try s = int t"
    and lp: "length p < nat CODE_LENGTH"
    by (simp_all add: at_position_def)
  have tm: "t < nat MAX_TRIES" using inv_current(2)[OF inv go] ct by simp
  from click_at_position[OF pos, of c] obtain s1 where
    pc: "palette_click False c s = Inr s1" and inv1: "session_inv s1"
    and sec: "secret s1 = secret s"
    and res: "if Suc (length p) < nat CODE_LENGTH then at_position s1 t (p @ [c])
               else if p @ [c] = secret s then game_over s1 \<and> session_state s1 = Won
               else if Suc t = nat MAX_TRIES then game_over s1 \<and> session_state s1 = Lost
               else at_position s1 (Suc t) []"
    by (auto split: if_splits)
  have step: "clicks (c # cs) s = clicks cs s1" using pc by simp
  show ?case
  proof (cases "Suc (length p) < nat CODE_LENGTH")
    case True
    with res have "at_position s1 t (p @ [c])" by simp
    from Cons.IH[OF this] show ?thesis unfolding step sec by simp
  next
    case False
    with lp have full: "length (p @ [c]) = nat CODE_LENGTH" by simp
    have eq: "p @ c # cs = (p @ [c]) @ cs" by simp
    have g0: "guess_no 0 (p @ c # cs) = p @ [c]"
      unfolding eq by (rule guess_no_0[OF full])
    have gS: "\<And>j. guess_no (Suc j) (p @ c # cs) = guess_no j cs"
      unfolding eq by (rule guess_no_Suc[OF full])
    have len: "length (p @ c # cs) = nat CODE_LENGTH + length cs" using full by simp
    obtain m where m: "nat MAX_TRIES - t = Suc m" using tm by (cases "nat MAX_TRIES - t") simp_all
    consider "p @ [c] = secret s"
      | "p @ [c] \<noteq> secret s" "Suc t = nat MAX_TRIES"
      | "p @ [c] \<noteq> secret s" "Suc t \<noteq> nat MAX_TRIES" by blast
    then show ?thesis
    proof cases
      case 1
      with res False have over: "game_over s1" and won: "session_state s1 = Won" by simp_all
      have "\<not> (\<forall>j<nat MAX_TRIES - t. guess_no j (p @ c # cs) \<noteq> secret s)"
        unfolding m using g0 1 by auto
      with won inv1 show ?thesis unfolding step clicks_game_over[OF over] by simp
    next
      case 2
      with res False have over: "game_over s1" and lost: "session_state s1 = Lost"
        by simp_all
      have "m = 0" using 2(2) m by simp
      then have "nat CODE_LENGTH * (nat MAX_TRIES - t) \<le> length (p @ c # cs)"
        and "\<forall>j<nat MAX_TRIES - t. guess_no j (p @ c # cs) \<noteq> secret s"
        unfolding m len using g0 2(1) by simp_all
      with lost inv1 show ?thesis unfolding step clicks_game_over[OF over] by simp
    next
      case 3
      with res False have "at_position s1 (Suc t) []" by simp
      from Cons.IH[OF this] obtain s' where
        cl: "clicks cs s1 = Inr s'" and inv': "session_inv s'"
        and l: "session_state s' = Lost \<longleftrightarrow>
                nat CODE_LENGTH * (nat MAX_TRIES - Suc t) \<le> length cs
                \<and> (\<forall>j<nat MAX_TRIES - Suc t. guess_no j cs \<noteq> secret s)"
        unfolding sec by auto
      have m': "nat MAX_TRIES - Suc t = m" using m by simp
      have "session_state s' = Lost \<longleftrightarrow>
                nat CODE_LENGTH * (nat MAX_TRIES - t) \<le> length (p @ c # cs)
                \<and> (\<forall>j<nat MAX_TRIES - t. guess_no j (p @ c # cs) \<noteq> secret s)"
        unfolding l m m' len All_less_Suc2 g0 gS using 3(1) by simp
      with cl inv' show ?thesis unfolding step by simp
    qed
  qed
qed


lemma guess_no_append:
  assumes "nat CODE_LENGTH * Suc j \<le> length cs"
  shows "guess_no j (cs @ ds) = guess_no j cs"
proof -
  have "nat CODE_LENGTH * j \<le> length cs" "nat CODE_LENGTH \<le> length cs - nat CODE_LENGTH * j"
    using assms by simp_all
  then show ?thesis by (simp add: guess_no_def)
qed

lemma init_gui_position:
  assumes "init_gui g = Inr s0"
  shows "at_position s0 0 []"
proof -
  from init_gui_inv[of g] assms have inv: "session_inv s0" and go: "\<not> game_over s0" by auto
  have ne: "COLORS \<noteq> []" by (simp add: COLORS_def)
  have "rows s0 = replicate (nat MAX_TRIES) new_row" "current_try s0 = 0"
    using assms by (auto simp: init_gui_def generate_code_eq ne)
  then show ?thesis
    using inv go
    by (simp add: at_position_def new_row_def list_mul_single MAX_TRIES_def CODE_LENGTH_def
        list_all_length)
qed

lemma reset_game_position:
  assumes "session_inv s" and "reset_game s = Inr s0"
  shows "at_position s0 0 []"
proof -
  from assms(1) have "length (rows s) = nat MAX_TRIES" "list_all row_shape (rows s)"
    by (simp_all add: session_inv_def)
  from reset_game_inv[OF this] assms(2) have inv: "session_inv s0" and go: "\<not> game_over s0"
    and ct: "current_try s0 = 0" by auto
  have ne: "COLORS \<noteq> []" by (simp add: COLORS_def)
  have r: "rows s0 = map reset_row (rows s)"
    using assms(2) by (auto simp: reset_game_def generate_code_eq ne)
  have l: "0 < length (rows s)" using assms(1) by (simp add: session_inv_def MAX_TRIES_def)
  have "guess_state (rows s0 ! 0) = replicate (nat CODE_LENGTH) None"
    using l by (simp add: r reset_row_def list_mul_single)
  moreover have "list_all (\<lambda>r. guess_state r = replicate (nat CODE_LENGTH) None)
        (drop (Suc 0) (rows s0))"
    unfolding list_all_drop_conv by (simp add: r reset_row_def list_mul_single)
  ultimately show ?thesis
    using inv go ct by (simp add: at_position_def CODE_LENGTH_def)
qed

lemma steps_and_click:
  assumes "session_inv s"
  shows "\<exists>s' d. palette_click_steps c s = Inr (s', d) \<and> palette_click False c s = Inr s'
           \<and> (game_over s \<longrightarrow> s' = s)
           \<and> (d = LossDialog \<longleftrightarrow> \<not> game_over s \<and> session_state s' = Lost)"
proof (cases "game_over s")
  case True
  then show ?thesis by (simp add: palette_click_def palette_click_steps_def)
next
  case False
  from click_summary[OF assms False, of c] obtain s' d where
    st: "palette_click_steps c s = Inr (s', d)"
    and pc: "palette_click False c s = Inr s'"
    and res: "if None \<in> set (submitted_guess c s)
         then session_state s' = InProgress \<and> d = NoDialog
         else \<exists>b w. check_guess (map Some (secret s)) (submitted_guess c s) = Inr (b, w)
            \<and> session_state s' =
                 (if b = CODE_LENGTH then Won
                  else if current_try s = MAX_TRIES - 1 then Lost else InProgress)
            \<and> d = (if b = CODE_LENGTH then WinDialog
                   else if current_try s = MAX_TRIES - 1 then LossDialog else NoDialog)
            \<and> current_try s' = (if b = CODE_LENGTH then current_try s else current_try s + 1)"
    by blast
  have "d = LossDialog \<longleftrightarrow> session_state s' = Lost"
    using res by (auto split: if_splits)
  with st pc False show ?thesis by simp
qed

text \<open>
  Claim C4. Take a session as \<open>__init__\<close> or \<open>_reset_game\<close> leaves it and any
  sequence of clicks. After them the session is Lost exactly when the clicks filled
  all MAX_TRIES rows, that is, MAX_TRIES complete guesses were submitted, and none of
  these guesses scored CODE_LENGTH black pegs; every row then holds a complete guess and
  none is marked solved. One more click takes the session from InProgress to Lost
  exactly when it is the click that fills the last row and none of the MAX_TRIES
  guesses wins; this is when the handler opens the loss dialog.
\<close>

theorem lost_iff_ten_guesses_none_won:
  assumes "init_gui g = Inr s0 \<or> (session_inv s \<and> reset_game s = Inr s0)"
  shows "\<exists>s1 s2 d. clicks cs s0 = Inr s1 \<and> palette_click_steps c s1 = Inr (s2, d)
     \<and> clicks (cs @ [c]) s0 = Inr s2
     \<and> (session_state s1 = Lost \<longleftrightarrow>
          nat MAX_TRIES * nat CODE_LENGTH \<le> length cs
          \<and> (\<forall>j<nat MAX_TRIES. \<not> wins (secret s0) (guess_no j cs)))
     \<and> (session_state s1 = Lost \<longrightarrow>
          length (filter row_complete (rows s1)) = nat MAX_TRIES
          \<and> \<not> list_ex solved (rows s1))
     \<and> (session_state s1 = InProgress \<and> session_state s2 = Lost \<longleftrightarrow>
          Suc (length cs) = nat MAX_TRIES * nat CODE_LENGTH
          \<and> (\<forall>j<nat MAX_TRIES. \<not> wins (secret s0) (guess_no j (cs @ [c]))))
     \<and> (d = LossDialog \<longleftrightarrow> session_state s1 = InProgress \<and> session_state s2 = Lost)"
proof -
  let ?n = "nat MAX_TRIES * nat CODE_LENGTH"
  let ?A = "\<lambda>xs. \<forall>j<nat MAX_TRIES. \<not> wins (secret s0) (guess_no j xs)"
  from assms have pos: "at_position s0 0 []"
    using init_gui_position reset_game_position by blast
  then have "session_inv s0" by (simp add: at_position_def)
  then have ls: "length (secret s0) = nat CODE_LENGTH" by (simp add: session_inv_def)
  note w = wins_iff[OF ls]
  from clicks_from_position[OF pos, of cs] obtain s1 where
    c1: "clicks cs s0 = Inr s1" and inv1: "session_inv s1"
    and l1: "session_state s1 = Lost \<longleftrightarrow> ?n \<le> length cs \<and> ?A cs"
    unfolding w by (auto simp: mult.commute)
  from clicks_from_position[OF pos, of "cs @ [c]"] obtain s2 where
    c2: "clicks (cs @ [c]) s0 = Inr s2"
    and l2: "session_state s2 = Lost \<longleftrightarrow> ?n \<le> Suc (length cs) \<and> ?A (cs @ [c])"
    unfolding w by (auto simp: mult.commute)
  from steps_and_click[OF inv1, of c] obtain s2' d where
    st: "palette_click_steps c s1 = Inr (s2', d)"
    and pc: "palette_click False c s1 = Inr s2'"
    and same: "game_over s1 \<longrightarrow> s2' = s1"
    and dl: "d = LossDialog \<longleftrightarrow> \<not> game_over s1 \<and> session_state s2' = Lost"
    by blast
  have "clicks (cs @ [c]) s0 = Inr s2'"
    by (simp add: clicks_append c1 pc)
  with c2 have eq: "s2' = s2" by simp
  have ip: "session_state s1 = InProgress \<longleftrightarrow> \<not> game_over s1"
    by (simp add: session_state_def)
  have rows: "session_state s1 = Lost \<longrightarrow>
          length (filter row_complete (rows s1)) = nat MAX_TRIES
          \<and> \<not> list_ex solved (rows s1)"
    using lost_iff_rows[OF inv1] by simp
  have tr: "session_state s1 = InProgress \<and> session_state s2 = Lost \<longleftrightarrow>
          Suc (length cs) = ?n \<and> ?A (cs @ [c])"
  proof
    assume a: "session_state s1 = InProgress \<and> session_state s2 = Lost"
    then have n: "?n \<le> Suc (length cs)" and A: "?A (cs @ [c])" using l2 by simp_all
    have "\<not> ?n \<le> length cs"
    proof
      assume b: "?n \<le> length cs"
      have "?A cs"
      proof (intro allI impI)
        fix j assume j: "j < nat MAX_TRIES"
        then have "nat CODE_LENGTH * Suc j \<le> nat CODE_LENGTH * nat MAX_TRIES"
          by (intro mult_le_mono2) simp
        with b have "nat CODE_LENGTH * Suc j \<le> length cs" by (simp add: mult.commute)
        then have g: "guess_no j (cs @ [c]) = guess_no j cs" by (rule guess_no_append)
        from A j have "\<not> wins (secret s0) (guess_no j (cs @ [c]))" by blast
        then show "\<not> wins (secret s0) (guess_no j cs)" unfolding g .
      qed
      with b l1 have "session_state s1 = Lost" by simp
      with a show False by simp
    qed
    with n A show "Suc (length cs) = ?n \<and> ?A (cs @ [c])" by simp
  next
    assume a: "Suc (length cs) = ?n \<and> ?A (cs @ [c])"
    then have lost2: "session_state s2 = Lost" using l2 by simp
    from a have "\<not> ?n \<le> length cs" by simp
    then have nl: "session_state s1 \<noteq> Lost" using l1 by simp
    have "\<not> game_over s1"
    proof
      assume "game_over s1"
      with same eq have "s2 = s1" by simp
      with lost2 nl show False by simp
    qed
    with lost2 ip show "session_state s1 = InProgress \<and> session_state s2 = Lost" by simp
  qed
  have dl': "d = LossDialog \<longleftrightarrow> session_state s1 = InProgress \<and> session_state s2 = Lost"
    using dl ip eq by simp
  from c1 st[unfolded eq] c2 l1 rows tr dl' show ?thesis by blast
qed

theorem lost_iff_ten_guesses_none_won_witness:
  "init_gui id = Inr first_session
   \<and> Suc (length (replicate 39 ''#b277ff'')) = nat MAX_TRIES * nat CODE_LENGTH
   \<and> map_sum id session_state (clicks (replicate 39 ''#b277ff'') first_session)
       = Inr InProgress
   \<and> map_sum id session_state (clicks (replicate 39 ''#b277ff'' @ [''#b277ff'']) first_session)
       = Inr Lost
   \<and> map_sum id (\<lambda>s. length (filter row_complete (rows s)))
        (clicks (replicate 39 ''#b277ff'' @ [''#b277ff'']) first_session) = Inr 10"
proof -
  let ?v = "''#b277ff''"
  let ?cs = "replicate 39 ?v"
  have ne: "COLORS \<noteq> []" by (simp add: COLORS_def)
  have i: "init_gui id = Inr first_session"
    by (simp add: init_gui_def generate_code_eq ne first_session_def COLORS_def CODE_LENGTH_def
        upt_conv_Cons)
  have n: "Suc (length ?cs) = nat MAX_TRIES * nat CODE_LENGTH"
    by (simp add: MAX_TRIES_def CODE_LENGTH_def)
  have ls: "length (secret first_session) = nat CODE_LENGTH"
    by (simp add: first_session_def CODE_LENGTH_def)
  have A: "\<forall>j<nat MAX_TRIES. \<not> wins (secret first_session) (guess_no j (?cs @ [?v]))"
  proof (intro allI impI notI)
    fix j assume "wins (secret first_session) (guess_no j (?cs @ [?v]))"
    then have "guess_no j (?cs @ [?v]) = secret first_session"
      by (simp only: wins_iff[OF ls])
    moreover have "set (guess_no j (?cs @ [?v])) \<subseteq> set (?cs @ [?v])"
      unfolding guess_no_def by (rule subset_trans[OF set_take_subset set_drop_subset])
    ultimately have "set (secret first_session) \<subseteq> set (?cs @ [?v])" by simp
    then show False by (simp add: first_session_def)
  qed
  from lost_iff_ten_guesses_none_won[of id first_session _ ?cs ?v] i obtain s1 s2 where
    c1: "clicks ?cs first_session = Inr s1"
    and c2: "clicks (?cs @ [?v]) first_session = Inr s2"
    and tr: "session_state s1 = InProgress \<and> session_state s2 = Lost \<longleftrightarrow>
          Suc (length ?cs) = nat MAX_TRIES * nat CODE_LENGTH
          \<and> (\<forall>j<nat MAX_TRIES. \<not> wins (secret first_session) (guess_no j (?cs @ [?v])))"
    by blast
  from tr n A have o: "session_state s1 = InProgress" "session_state s2 = Lost" by blast+
  from lost_iff_ten_guesses_none_won[of id first_session _ "?cs @ [?v]" ?v] i c2 o(2)
  have "length (filter row_complete (rows s2)) = nat MAX_TRIES" by auto
  then have "length (filter row_complete (rows s2)) = 10" by (simp add: MAX_TRIES_def)
  with i n o c1 c2 show ?thesis by simp
qed

text \<open>
  Claim C5 says that a click on a finished session fails with a GameOver error. The
  handler raises nothing: its first statement returns when \<open>game_over\<close> is set.
\<close>

theorem click_after_game_over_returns:
  "palette_click False ''#38ffff'' session_over = Inr session_over
   \<and> \<not> isl (palette_click False ''#38ffff'' session_over)"
  by (simp add: palette_click_def palette_click_steps_def session_over_def)

text \<open>
  Claim C5, amended. A click on a finished session returns normally and leaves every
  field of the session as it was, the rows included.
\<close>

theorem click_after_game_over_ignored:
  assumes "game_over s"
  shows "palette_click answer color s = Inr s"
  using assms by (simp add: palette_click_def palette_click_steps_def)

theorem click_after_game_over_ignored_witness:
  "game_over session_over \<and> session_state session_over = Lost
   \<and> palette_click True ''#ff6a00'' session_over = Inr session_over"
proof -
  have g: "game_over session_over" by code_simp
  have l: "session_state session_over = Lost" by code_simp
  from click_after_game_over_ignored[OF g, of True "''#ff6a00''"] g l show ?thesis by simp
qed

text \<open>
  Claim C10. For lists of equal length, \<open>check_guess\<close> returns black equal to the
  length exactly when the guess is the secret; so a click on a session in progress takes
  the win branch exactly when the guess it submits is the secret code.
\<close>

theorem win_iff_guess_is_secret:
  fixes sec guess :: "'a list"
  shows "(length sec = length guess \<longrightarrow>
           ((\<exists>w. check_guess sec guess = Inr (int (length sec), w)) \<longleftrightarrow> guess = sec))
     \<and> (session_inv s \<and> \<not> game_over s \<longrightarrow>
          (\<exists>s' d. palette_click_steps color s = Inr (s', d)
             \<and> (d = WinDialog \<longleftrightarrow> submitted_guess color s = map Some (secret s))))"
proof (intro conjI impI)
  assume len: "length sec = length guess"
  show "(\<exists>w. check_guess sec guess = Inr (int (length sec), w)) \<longleftrightarrow> guess = sec"
    using black_all[OF len] by (simp add: check_guess_eq[OF len])
next
  assume a: "session_inv s \<and> \<not> game_over s"
  then have inv: "session_inv s" and go: "\<not> game_over s" by simp_all
  let ?g = "submitted_guess color s"
  let ?sec = "map Some (secret s)"
  from click_summary[OF inv go, of color] obtain s' d where
    st: "palette_click_steps color s = Inr (s', d)"
    and res: "if None \<in> set ?g
         then session_state s' = InProgress \<and> d = NoDialog
         else \<exists>b w. check_guess ?sec ?g = Inr (b, w)
            \<and> session_state s' =
                 (if b = CODE_LENGTH then Won
                  else if current_try s = MAX_TRIES - 1 then Lost else InProgress)
            \<and> d = (if b = CODE_LENGTH then WinDialog
                   else if current_try s = MAX_TRIES - 1 then LossDialog else NoDialog)
            \<and> current_try s' = (if b = CODE_LENGTH then current_try s else current_try s + 1)"
    by blast
  from steps_result[OF inv go, of color] have "length ?g = nat CODE_LENGTH"
    by (auto simp: row_shape_def)
  moreover have ls: "length (secret s) = nat CODE_LENGTH"
    using inv by (simp add: session_inv_def)
  ultimately have len: "length ?sec = length ?g" by simp
  have cl: "int (length ?sec) = CODE_LENGTH" using ls by (simp add: CODE_LENGTH_def)
  have "d = WinDialog \<longleftrightarrow> ?g = ?sec"
  proof (cases "None \<in> set ?g")
    case True
    then have "?g \<noteq> ?sec" by auto
    with res True show ?thesis by simp
  next
    case False
    with res obtain b w where cg: "check_guess ?sec ?g = Inr (b, w)"
      and d: "d = (if b = CODE_LENGTH then WinDialog
                   else if current_try s = MAX_TRIES - 1 then LossDialog else NoDialog)"
      by auto
    from cg have "b = int (length (filter (\<lambda>(s, g). s = g) (zip ?sec ?g)))"
      by (simp add: check_guess_eq[OF len])
    with black_all[OF len] cl have "b = CODE_LENGTH \<longleftrightarrow> ?g = ?sec" by auto
    with d show ?thesis by auto
  qed
  with st show "\<exists>s' d. palette_click_steps color s = Inr (s', d)
             \<and> (d = WinDialog \<longleftrightarrow> submitted_guess color s = map Some (secret s))"
    by blast
qed

theorem win_iff_guess_is_secret_witness:
  "length [''A'', ''B'', ''A'', ''C''] = length [''A'', ''B'', ''A'', ''C'']
   \<and> check_guess [''A'', ''B'', ''A'', ''C''] [''A'', ''B'', ''A'', ''C''] = Inr (4, 0)
   \<and> session_inv (session_at 1) \<and> \<not> game_over (session_at 1)
   \<and> submitted_guess ''#ff5e9c'' (session_at 1) = map Some (secret (session_at 1))
   \<and> map_sum id snd (palette_click_steps ''#ff5e9c'' (session_at 1)) = Inr WinDialog
   \<and> submitted_guess ''#5a7af5'' (session_at 1) \<noteq> map Some (secret (session_at 1))
   \<and> map_sum id snd (palette_click_steps ''#5a7af5'' (session_at 1)) \<noteq> Inr WinDialog"
proof -
  let ?xs = "[''A'', ''B'', ''A'', ''C'']"
  have i: "session_inv (session_at 1)" by code_simp
  have n: "\<not> game_over (session_at 1)" by code_simp
  have e: "submitted_guess ''#ff5e9c'' (session_at 1) = map Some (secret (session_at 1))"
    by code_simp
  have ne: "submitted_guess ''#5a7af5'' (session_at 1) \<noteq> map Some (secret (session_at 1))"
    by code_simp
  have cg: "check_guess ?xs ?xs = Inr (4, 0)" by (simp add: check_guess_code)
  from win_iff_guess_is_secret[of ?xs ?xs "session_at 1" "''#ff5e9c''"] i n e
  have a: "map_sum id snd (palette_click_steps ''#ff5e9c'' (session_at 1)) = Inr WinDialog"
    by auto
  from win_iff_guess_is_secret[of ?xs ?xs "session_at 1" "''#5a7af5''"] i n ne
  have b: "map_sum id snd (palette_click_steps ''#5a7af5'' (session_at 1)) \<noteq> Inr WinDialog"
    by auto
  from a b i n e ne cg show ?thesis by simp
qed

end
